theory Spec2Isabelle
  imports Main
begin

section \<open>The schema graph read by entviz\<close>

text \<open>
  entviz reads a narrow part of ent's \<^verbatim>\<open>gen.Graph\<close>: of a field its \<^verbatim>\<open>Name\<close>,
  \<^verbatim>\<open>Type.String()\<close> and \<^verbatim>\<open>Comment()\<close>; of a relationship (\<^verbatim>\<open>gen.Edge\<close>) its
  \<^verbatim>\<open>Name\<close>, the \<^verbatim>\<open>Name\<close> of its target \<^verbatim>\<open>Type\<close> and \<^verbatim>\<open>IsInverse()\<close>; of an entity
  (\<^verbatim>\<open>gen.Type\<close>) its \<^verbatim>\<open>Name\<close>, \<^verbatim>\<open>Fields\<close> and \<^verbatim>\<open>Edges\<close>; of the graph its \<^verbatim>\<open>Nodes\<close> and
  \<^verbatim>\<open>Config.Target\<close>. The records below hold exactly that view. A Go string is a
  sequence of bytes, and so is a \<^typ>\<open>string\<close> here. The input slices are only ranged
  over, which does not tell a nil slice from an empty one, so they are lists. Every
  pointer of the graph is taken to be non-nil, as ent builds it.
\<close>

record gen_Field =
  Field_Name :: string
  Field_Type_String :: string
  Field_Comment :: string

record gen_Edge =
  Edge_Name :: string
  Edge_Type_Name :: string
  Edge_IsInverse :: bool

record gen_Type =
  Type_Name :: string
  Type_Fields :: "gen_Field list"
  Type_Edges :: "gen_Edge list"

record gen_Graph =
  Config_Target :: string
  Graph_Nodes :: "gen_Type list"

section \<open>The visualization graph\<close>

text \<open>
  The four structs of \<^verbatim>\<open>entviz.go\<close>. A Go slice is either nil or holds a sequence of
  elements (\<^verbatim>\<open>json.Marshal\<close> tells the two apart), so a slice is a list option with
  \<^term>\<open>None\<close> for nil.
\<close>

type_synonym 'a slice = "'a list option"

record jsField =
  Name :: string
  Type :: string
  Comment :: string

record jsNode =
  ID :: string
  Fields :: "jsField slice"

record jsEdge =
  From :: string
  To :: string
  Label :: string

record jsGraph =
  Nodes :: "jsNode slice"
  Edges :: "jsEdge slice"

text \<open>Go's built-in \<^verbatim>\<open>append(s, x)\<close>: appending to the nil slice gives a slice of one element.\<close>

fun append_slice :: "'a slice \<Rightarrow> 'a \<Rightarrow> 'a slice" where
  "append_slice None x = Some [x]"
| "append_slice (Some xs) x = Some (xs @ [x])"

text \<open>The elements of a slice; ranging over a nil slice visits nothing.\<close>

fun elems :: "'a slice \<Rightarrow> 'a list" where
  "elems None = []"
| "elems (Some xs) = xs"

section \<open>toJsGraph\<close>

text \<open>
  The inner loop over \<^verbatim>\<open>n.Fields\<close>: each field is appended to \<^verbatim>\<open>node.Fields\<close>.
\<close>

fun fields_loop :: "jsNode \<Rightarrow> gen_Field list \<Rightarrow> jsNode" where
  "fields_loop node [] = node"
| "fields_loop node (f # fs) =
     fields_loop
       (node\<lparr>Fields := append_slice (Fields node)
          \<lparr>Name = Field_Name f, Type = Field_Type_String f, Comment = Field_Comment f\<rparr>\<rparr>)
       fs"

text \<open>
  The inner loop over \<^verbatim>\<open>n.Edges\<close>: an inverse relationship is skipped
  (\<^verbatim>\<open>continue\<close>), any other is appended to \<^verbatim>\<open>graph.Edges\<close>.
\<close>

fun edges_loop :: "string \<Rightarrow> jsGraph \<Rightarrow> gen_Edge list \<Rightarrow> jsGraph" where
  "edges_loop n_Name graph [] = graph"
| "edges_loop n_Name graph (e # es) =
     (if Edge_IsInverse e then edges_loop n_Name graph es
      else edges_loop n_Name
             (graph\<lparr>Edges := append_slice (Edges graph)
                \<lparr>From = n_Name, To = Edge_Type_Name e, Label = Edge_Name e\<rparr>\<rparr>)
             es)"

text \<open>The outer loop over \<^verbatim>\<open>g.Nodes\<close>.\<close>

fun nodes_loop :: "jsGraph \<Rightarrow> gen_Type list \<Rightarrow> jsGraph" where
  "nodes_loop graph [] = graph"
| "nodes_loop graph (n # ns) =
     (let node = fields_loop \<lparr>ID = Type_Name n, Fields = None\<rparr> (Type_Fields n);
          graph1 = graph\<lparr>Nodes := append_slice (Nodes graph) node\<rparr>
      in nodes_loop (edges_loop (Type_Name n) graph1 (Type_Edges n)) ns)"

definition toJsGraph :: "gen_Graph \<Rightarrow> jsGraph" where
  "toJsGraph g = nodes_loop \<lparr>Nodes = None, Edges = None\<rparr> (Graph_Nodes g)"

text \<open>What the loops compute, as list functions of the input.\<close>

definition field_of :: "gen_Field \<Rightarrow> jsField" where
  "field_of f = \<lparr>Name = Field_Name f, Type = Field_Type_String f, Comment = Field_Comment f\<rparr>"

definition edge_of :: "gen_Type \<Rightarrow> gen_Edge \<Rightarrow> jsEdge" where
  "edge_of n e = \<lparr>From = Type_Name n, To = Edge_Type_Name e, Label = Edge_Name e\<rparr>"

definition declared_edges :: "gen_Type \<Rightarrow> jsEdge list" where
  "declared_edges n = map (edge_of n) (filter (\<lambda>e. \<not> Edge_IsInverse e) (Type_Edges n))"

text \<open>A slice built by appending only: nil as long as nothing was appended.\<close>

definition slice_of :: "'a list \<Rightarrow> 'a slice" where
  "slice_of xs = (if xs = [] then None else Some xs)"

definition node_of :: "gen_Type \<Rightarrow> jsNode" where
  "node_of n = \<lparr>ID = Type_Name n, Fields = slice_of (map field_of (Type_Fields n))\<rparr>"

lemma elems_slice_of: "elems (slice_of xs) = xs"
  by (simp add: slice_of_def)

lemma append_slice_slice_of: "append_slice (slice_of xs) x = slice_of (xs @ [x])"
  by (simp add: slice_of_def)

lemma fields_loop_eq:
  "fields_loop \<lparr>ID = i, Fields = slice_of acc\<rparr> fs =
     \<lparr>ID = i, Fields = slice_of (acc @ map field_of fs)\<rparr>"
  by (induction fs arbitrary: acc) (simp_all add: append_slice_slice_of field_of_def)

lemma fields_loop_node_of:
  "fields_loop \<lparr>ID = Type_Name n, Fields = None\<rparr> (Type_Fields n) = node_of n"
  using fields_loop_eq [of "Type_Name n" "[]" "Type_Fields n"]
  by (simp add: node_of_def slice_of_def)

lemma edges_loop_eq:
  "edges_loop (Type_Name n) \<lparr>Nodes = ns, Edges = slice_of acc\<rparr> es =
     \<lparr>Nodes = ns, Edges = slice_of (acc @ map (edge_of n) (filter (\<lambda>e. \<not> Edge_IsInverse e) es))\<rparr>"
  by (induction es arbitrary: acc) (simp_all add: append_slice_slice_of edge_of_def)

lemma nodes_loop_eq:
  "nodes_loop \<lparr>Nodes = slice_of accn, Edges = slice_of acce\<rparr> ns =
     \<lparr>Nodes = slice_of (accn @ map node_of ns),
      Edges = slice_of (acce @ concat (map declared_edges ns))\<rparr>"
proof (induction ns arbitrary: accn acce)
  case Nil
  show ?case by simp
next
  case (Cons n ns)
  show ?case
    by (simp add: Let_def fields_loop_node_of append_slice_slice_of edges_loop_eq Cons.IH
        declared_edges_def)
qed

lemma toJsGraph_eq:
  "toJsGraph g =
     \<lparr>Nodes = slice_of (map node_of (Graph_Nodes g)),
      Edges = slice_of (concat (map declared_edges (Graph_Nodes g)))\<rparr>"
  using nodes_loop_eq [of "[]" "[]" "Graph_Nodes g"]
  by (simp add: toJsGraph_def slice_of_def)

section \<open>Go's UTF-8 decoding, as \<^verbatim>\<open>json.Marshal\<close> uses it\<close>

text \<open>
  \<^verbatim>\<open>unicode/utf8\<close> of the Go standard library. Bytes are read as natural numbers
  below 256 and a rune is a natural number (a rune decoded from at most four bytes is
  below \<open>2^21\<close>, so \<^verbatim>\<open>int32\<close> never wraps).
\<close>

definition RuneError :: nat where "RuneError = 0xFFFD"
definition RuneSelf :: nat where "RuneSelf = 0x80"
definition UTFMax :: nat where "UTFMax = 4"

text \<open>
  The table \<^verbatim>\<open>first\<close>: \<open>0xF0\<close> for ASCII, \<open>0xF1\<close> for a byte that starts no
  sequence; otherwise the low three bits give the length of the sequence and the high
  four bits the index into \<^verbatim>\<open>acceptRanges\<close> of the range of the second byte.
\<close>

definition first :: "nat \<Rightarrow> nat" where
  "first b =
     (if b < 0x80 then 0xF0
      else if b < 0xC2 then 0xF1
      else if b < 0xE0 then 0x02
      else if b = 0xE0 then 0x13
      else if b < 0xED then 0x03
      else if b = 0xED then 0x23
      else if b < 0xF0 then 0x03
      else if b = 0xF0 then 0x34
      else if b < 0xF4 then 0x04
      else if b = 0xF4 then 0x44
      else 0xF1)"

text \<open>\<^verbatim>\<open>acceptRanges\<close> has sixteen entries, all but the first five zero.\<close>

definition acceptRanges :: "nat \<Rightarrow> nat \<times> nat" where
  "acceptRanges i =
     (if i = 0 then (0x80, 0xBF)
      else if i = 1 then (0xA0, 0xBF)
      else if i = 2 then (0x80, 0x9F)
      else if i = 3 then (0x90, 0xBF)
      else if i = 4 then (0x80, 0x8F)
      else (0, 0))"

definition byte_at :: "string \<Rightarrow> nat \<Rightarrow> nat" where
  "byte_at s i = of_char (s ! i)"

text \<open>
  \<^verbatim>\<open>DecodeRuneInString\<close> returns the rune and the number of bytes read. In the Go
  code the first branch is written with a mask built from bit 0 of \<open>x\<close>: the result
  is the byte itself for \<open>0xF0\<close> and \<^verbatim>\<open>RuneError\<close> for \<open>0xF1\<close>.
\<close>

definition DecodeRuneInString :: "string \<Rightarrow> nat \<times> nat" where
  "DecodeRuneInString s =
     (let n = length s in
      if n < 1 then (RuneError, 0)
      else
        let s0 = byte_at s 0; x = first s0 in
        if x \<ge> 0xF0 then (if odd x then RuneError else s0, 1)
        else
          let sz = and x 7; (lo, hi) = acceptRanges (drop_bit 4 x) in
          if n < sz then (RuneError, 1)
          else
            let s1 = byte_at s 1 in
            if s1 < lo \<or> hi < s1 then (RuneError, 1)
            else if sz \<le> 2 then (or (push_bit 6 (and s0 0x1F)) (and s1 0x3F), 2)
            else
              let s2 = byte_at s 2 in
              if s2 < 0x80 \<or> 0xBF < s2 then (RuneError, 1)
              else if sz \<le> 3 then
                (or (or (push_bit 12 (and s0 0x0F)) (push_bit 6 (and s1 0x3F))) (and s2 0x3F), 3)
              else
                let s3 = byte_at s 3 in
                if s3 < 0x80 \<or> 0xBF < s3 then (RuneError, 1)
                else
                  (or (or (or (push_bit 18 (and s0 0x07)) (push_bit 12 (and s1 0x3F)))
                      (push_bit 6 (and s2 0x3F))) (and s3 0x3F), 4))"


lemma DecodeRuneInString_size_pos: "s \<noteq> [] \<Longrightarrow> 1 \<le> snd (DecodeRuneInString s)"
  by (auto simp: DecodeRuneInString_def Let_def split: prod.splits)

lemma DecodeRuneInString_take_pos:
  "(r, n) = DecodeRuneInString (take UTFMax (c # cs)) \<Longrightarrow> 0 < n"
  using DecodeRuneInString_size_pos [of "take UTFMax (c # cs)"]
  by (cases "DecodeRuneInString (take UTFMax (c # cs))") (simp add: UTFMax_def)

lemma DecodeRuneInString_Cons_pos:
  "(r, n) = DecodeRuneInString (c # cs) \<Longrightarrow> 0 < n"
  using DecodeRuneInString_size_pos [of "c # cs"]
  by (cases "DecodeRuneInString (c # cs)") simp

section \<open>Go's JSON encoding of strings\<close>

text \<open>
  \<^verbatim>\<open>appendString\<close> of \<^verbatim>\<open>encoding/json\<close> with \<^verbatim>\<open>escapeHTML\<close> set, as
  \<^verbatim>\<open>json.Marshal\<close> calls it. \<^verbatim>\<open>htmlSafeSet\<close> holds the ASCII bytes written as they
  are: the printable ones but the double quote, the backslash and \<open><\<close>, \<open>>\<close>, \<open>&\<close>.
\<close>

definition hex :: string where
  "hex = ''0123456789abcdef''"

definition htmlSafeSet :: "nat \<Rightarrow> bool" where
  "htmlSafeSet b \<longleftrightarrow>
     0x20 \<le> b \<and> b < 0x80 \<and> b \<noteq> 0x22 \<and> b \<noteq> 0x26 \<and> b \<noteq> 0x3C \<and> b \<noteq> 0x3E \<and> b \<noteq> 0x5C"

text \<open>
  The \<^verbatim>\<open>switch\<close> on an ASCII byte outside \<^verbatim>\<open>htmlSafeSet\<close> (the short forms of
  backspace and form feed are those of Go 1.22 and later).
\<close>

definition escape_byte :: "char \<Rightarrow> string" where
  "escape_byte c =
     (let b = of_char c :: nat in
      if b = 0x5C \<or> b = 0x22 then [CHR 0x5C, c]
      else if b = 0x08 then [CHR 0x5C, CHR ''b'']
      else if b = 0x0C then [CHR 0x5C, CHR ''f'']
      else if b = 0x0A then [CHR 0x5C, CHR ''n'']
      else if b = 0x0D then [CHR 0x5C, CHR ''r'']
      else if b = 0x09 then [CHR 0x5C, CHR ''t'']
      else [CHR 0x5C, CHR ''u'', CHR ''0'', CHR ''0'', hex ! drop_bit 4 b, hex ! and b 0xF])"

text \<open>
  The loop of \<^verbatim>\<open>appendString\<close> over the bytes of \<^verbatim>\<open>src\<close>. Go keeps an index
  \<^verbatim>\<open>start\<close> and copies the bytes since \<^verbatim>\<open>start\<close> whenever it writes an escape and at the
  end; here every byte is written when it is read, which gives the same bytes in the
  same order. The second argument is what is left of \<^verbatim>\<open>src\<close> from index \<^verbatim>\<open>i\<close> on.
\<close>

function appendString_loop :: "string \<Rightarrow> string \<Rightarrow> string" where
  "appendString_loop dst [] = dst"
| "appendString_loop dst (c # cs) =
     (if (of_char c :: nat) < RuneSelf then
        (if htmlSafeSet (of_char c) then appendString_loop (dst @ [c]) cs
         else appendString_loop (dst @ escape_byte c) cs)
      else
        (case DecodeRuneInString (take UTFMax (c # cs)) of
           (r, size') \<Rightarrow>
             if r = RuneError \<and> size' = 1 then
               appendString_loop (dst @ [CHR 0x5C, CHR ''u'', CHR ''f'', CHR ''f'', CHR ''f'', CHR ''d''])
                 (drop size' (c # cs))
             else if r = 0x2028 \<or> r = 0x2029 then
               appendString_loop
                 (dst @ [CHR 0x5C, CHR ''u'', CHR ''2'', CHR ''0'', CHR ''2'', hex ! and r 0xF])
                 (drop size' (c # cs))
             else appendString_loop (dst @ take size' (c # cs)) (drop size' (c # cs))))"
  by pat_completeness auto
termination
  by (relation "measure (\<lambda>(dst, src). length src)") (auto dest: DecodeRuneInString_take_pos)

definition appendString :: "string \<Rightarrow> string \<Rightarrow> string" where
  "appendString dst src = appendString_loop (dst @ [CHR 0x22]) src @ [CHR 0x22]"


section \<open>Go's JSON encoding of slices and structs\<close>

text \<open>
  \<^verbatim>\<open>encoding/json\<close> builds an encoder for each type. An encoder appends to the buffer
  of the encode state; here it returns the bytes it appends.
\<close>

definition stringEncoder :: "string \<Rightarrow> string" where
  "stringEncoder s = appendString [] s"

text \<open>\<^verbatim>\<open>arrayEncoder\<close>: the elements between brackets, a comma before all but the first.\<close>

fun arrayEncoder_loop :: "('a \<Rightarrow> string) \<Rightarrow> nat \<Rightarrow> 'a list \<Rightarrow> string" where
  "arrayEncoder_loop elemEnc i [] = []"
| "arrayEncoder_loop elemEnc i (v # vs) =
     (if i > 0 then '','' else []) @ elemEnc v @ arrayEncoder_loop elemEnc (Suc i) vs"

definition arrayEncoder :: "('a \<Rightarrow> string) \<Rightarrow> 'a list \<Rightarrow> string" where
  "arrayEncoder elemEnc vs = ''['' @ arrayEncoder_loop elemEnc 0 vs @ '']''"

text \<open>\<^verbatim>\<open>sliceEncoder\<close>: a nil slice is written as \<^verbatim>\<open>null\<close>, any other as an array.\<close>

fun sliceEncoder :: "('a \<Rightarrow> string) \<Rightarrow> 'a slice \<Rightarrow> string" where
  "sliceEncoder elemEnc None = ''null''"
| "sliceEncoder elemEnc (Some vs) = arrayEncoder elemEnc vs"

text \<open>
  A field of a struct as \<^verbatim>\<open>encoding/json\<close> sees it: the key of its \<^verbatim>\<open>json\<close> tag,
  whether the tag has the option \<^verbatim>\<open>omitempty\<close>, the test \<^verbatim>\<open>isEmptyValue\<close> on the
  field's value and the encoder of the field's type applied to the field's value.
\<close>

record 'a field =
  name :: string
  omitEmpty :: bool
  isEmptyValue :: "'a \<Rightarrow> bool"
  encoder :: "'a \<Rightarrow> string"

text \<open>
  The key as written, \<^verbatim>\<open>nameEscHTML\<close>: the name between double quotes, then a colon. (Go
  passes the name through \<^verbatim>\<open>appendHTMLEscape\<close> first, which changes nothing in a name
  of ASCII letters, as all the keys of entviz are.)
\<close>

definition nameEscHTML :: "'a field \<Rightarrow> string" where
  "nameEscHTML f = [CHR 0x22] @ name f @ [CHR 0x22, CHR '':'']"

text \<open>
  \<^verbatim>\<open>structEncoder\<close>: the fields in the order of their declaration; \<^verbatim>\<open>next\<close> is the
  byte written before the next field, an opening brace at first and a comma after.
\<close>

fun structEncoder_loop :: "'a \<Rightarrow> char \<Rightarrow> string \<Rightarrow> 'a field list \<Rightarrow> char \<times> string" where
  "structEncoder_loop v next e [] = (next, e)"
| "structEncoder_loop v next e (f # fs) =
     (if omitEmpty f \<and> isEmptyValue f v then structEncoder_loop v next e fs
      else structEncoder_loop v (CHR '','') (e @ [next] @ nameEscHTML f @ encoder f v) fs)"

definition structEncoder :: "'a field list \<Rightarrow> 'a \<Rightarrow> string" where
  "structEncoder fs v =
     (case structEncoder_loop v (CHR ''{'') [] fs of
        (next, e) \<Rightarrow> if next = CHR ''{'' then e @ ''{}'' else e @ ''}'')"

text \<open>
  The fields of the four structs of entviz, from their declarations and tags
  (\<^verbatim>\<open>`json:"name"`\<close> and so on): no tag has \<^verbatim>\<open>omitempty\<close>.
\<close>

definition jsField_fields :: "jsField field list" where
  "jsField_fields =
     [\<lparr>name = ''name'', omitEmpty = False, isEmptyValue = (\<lambda>v. Name v = []),
        encoder = (\<lambda>v. stringEncoder (Name v))\<rparr>,
      \<lparr>name = ''type'', omitEmpty = False, isEmptyValue = (\<lambda>v. Type v = []),
        encoder = (\<lambda>v. stringEncoder (Type v))\<rparr>,
      \<lparr>name = ''comment'', omitEmpty = False, isEmptyValue = (\<lambda>v. Comment v = []),
        encoder = (\<lambda>v. stringEncoder (Comment v))\<rparr>]"

definition jsEdge_fields :: "jsEdge field list" where
  "jsEdge_fields =
     [\<lparr>name = ''from'', omitEmpty = False, isEmptyValue = (\<lambda>v. From v = []),
        encoder = (\<lambda>v. stringEncoder (From v))\<rparr>,
      \<lparr>name = ''to'', omitEmpty = False, isEmptyValue = (\<lambda>v. To v = []),
        encoder = (\<lambda>v. stringEncoder (To v))\<rparr>,
      \<lparr>name = ''label'', omitEmpty = False, isEmptyValue = (\<lambda>v. Label v = []),
        encoder = (\<lambda>v. stringEncoder (Label v))\<rparr>]"

definition jsNode_fields :: "jsNode field list" where
  "jsNode_fields =
     [\<lparr>name = ''id'', omitEmpty = False, isEmptyValue = (\<lambda>v. ID v = []),
        encoder = (\<lambda>v. stringEncoder (ID v))\<rparr>,
      \<lparr>name = ''fields'', omitEmpty = False, isEmptyValue = (\<lambda>v. elems (Fields v) = []),
        encoder = (\<lambda>v. sliceEncoder (structEncoder jsField_fields) (Fields v))\<rparr>]"

definition jsGraph_fields :: "jsGraph field list" where
  "jsGraph_fields =
     [\<lparr>name = ''nodes'', omitEmpty = False, isEmptyValue = (\<lambda>v. elems (Nodes v) = []),
        encoder = (\<lambda>v. sliceEncoder (structEncoder jsNode_fields) (Nodes v))\<rparr>,
      \<lparr>name = ''edges'', omitEmpty = False, isEmptyValue = (\<lambda>v. elems (Edges v) = []),
        encoder = (\<lambda>v. sliceEncoder (structEncoder jsEdge_fields) (Edges v))\<rparr>]"

text \<open>
  The errors of the program are values. \<^verbatim>\<open>json.Marshal\<close> returns an error for values it
  cannot encode (channels, functions, cyclic data); strings, slices and structs of
  these are always encoded.
\<close>

datatype error =
  PathError string string
  | ExecError string
  | MarshalerError string
  | OtherError string

definition Marshal_jsField :: "jsField \<Rightarrow> error + string" where
  "Marshal_jsField v = Inr (structEncoder jsField_fields v)"

definition Marshal_jsGraph :: "jsGraph \<Rightarrow> error + string" where
  "Marshal_jsGraph v = Inr (structEncoder jsGraph_fields v)"

section \<open>The JSON text of the four structs\<close>

lemmas eval_string =
  appendString_def RuneSelf_def htmlSafeSet_def escape_byte_def hex_def
  DecodeRuneInString_def byte_at_def first_def acceptRanges_def RuneError_def UTFMax_def
  stringEncoder_def

lemma stringEncoder_empty: \<open>stringEncoder [] = ''""''\<close>
  by (simp add: stringEncoder_def appendString_def)

lemma jsField_json:
  \<open>structEncoder jsField_fields v =
     ''{"name":'' @ stringEncoder (Name v) @ '',"type":'' @ stringEncoder (Type v) @
     '',"comment":'' @ stringEncoder (Comment v) @ ''}''\<close>
  by (simp add: structEncoder_def jsField_fields_def nameEscHTML_def)

lemma jsEdge_json:
  \<open>structEncoder jsEdge_fields v =
     ''{"from":'' @ stringEncoder (From v) @ '',"to":'' @ stringEncoder (To v) @
     '',"label":'' @ stringEncoder (Label v) @ ''}''\<close>
  by (simp add: structEncoder_def jsEdge_fields_def nameEscHTML_def)

lemma jsNode_json:
  \<open>structEncoder jsNode_fields v =
     ''{"id":'' @ stringEncoder (ID v) @ '',"fields":'' @
     sliceEncoder (structEncoder jsField_fields) (Fields v) @ ''}''\<close>
  by (simp add: structEncoder_def jsNode_fields_def nameEscHTML_def)

lemma jsGraph_json:
  \<open>structEncoder jsGraph_fields v =
     ''{"nodes":'' @ sliceEncoder (structEncoder jsNode_fields) (Nodes v) @ '',"edges":'' @
     sliceEncoder (structEncoder jsEdge_fields) (Edges v) @ ''}''\<close>
  by (simp add: structEncoder_def jsGraph_fields_def nameEscHTML_def)

text \<open>
  The two tests of the package on \<^verbatim>\<open>json.Marshal\<close> of a \<^verbatim>\<open>jsField\<close>: a comment of
  eight Chinese characters, written with its UTF-8 bytes, and an empty comment.
\<close>

lemma TestJsFieldComment:
  \<open>Marshal_jsField
     \<lparr>Name = ''test_field'', Type = ''string'',
      Comment =
        [CHR 0xE8, CHR 0xBF, CHR 0x99, CHR 0xE6, CHR 0x98, CHR 0xAF, CHR 0xE4, CHR 0xB8,
         CHR 0x80, CHR 0xE4, CHR 0xB8, CHR 0xAA, CHR 0xE6, CHR 0xB5, CHR 0x8B, CHR 0xE8,
         CHR 0xAF, CHR 0x95, CHR 0xE5, CHR 0xAD, CHR 0x97, CHR 0xE6, CHR 0xAE, CHR 0xB5]\<rparr> =
   Inr (''{"name":"test_field","type":"string","comment":"'' @
        [CHR 0xE8, CHR 0xBF, CHR 0x99, CHR 0xE6, CHR 0x98, CHR 0xAF, CHR 0xE4, CHR 0xB8,
         CHR 0x80, CHR 0xE4, CHR 0xB8, CHR 0xAA, CHR 0xE6, CHR 0xB5, CHR 0x8B, CHR 0xE8,
         CHR 0xAF, CHR 0x95, CHR 0xE5, CHR 0xAD, CHR 0x97, CHR 0xE6, CHR 0xAE, CHR 0xB5] @
        ''"}'')\<close>
  by (simp add: Marshal_jsField_def jsField_json eval_string)

lemma TestJsFieldEmptyComment:
  \<open>Marshal_jsField \<lparr>Name = ''test_field'', Type = ''string'', Comment = []\<rparr> =
   Inr ''{"name":"test_field","type":"string","comment":""}''\<close>
  by (simp add: Marshal_jsField_def jsField_json eval_string)

text \<open>An array holds the texts of its elements in the order of the slice.\<close>

fun separated :: "string list \<Rightarrow> string" where
  "separated [] = []"
| "separated [x] = x"
| "separated (x # y # ys) = x @ '','' @ separated (y # ys)"

lemma arrayEncoder_loop_Suc:
  "arrayEncoder_loop elemEnc (Suc i) vs = concat (map (\<lambda>v. '','' @ elemEnc v) vs)"
  by (induction vs arbitrary: i) simp_all

lemma separated_Cons: "separated (x # xs) = x @ concat (map (\<lambda>y. '','' @ y) xs)"
  by (induction xs arbitrary: x) simp_all

lemma arrayEncoder_separated:
  "arrayEncoder elemEnc vs = ''['' @ separated (map elemEnc vs) @ '']''"
proof (cases vs)
  case Nil
  then show ?thesis by (simp add: arrayEncoder_def)
next
  case (Cons v ws)
  then show ?thesis
    by (simp add: arrayEncoder_def arrayEncoder_loop_Suc separated_Cons comp_def)
qed

section \<open>Claims about the reduction and the JSON text\<close>

text \<open>
  C1. For every graph, the edges of \<^const>\<open>toJsGraph\<close> are, node by node and in the order
  of declaration, the relationships that are not inverse, each as the edge from the
  declaring entity's name to the target's name with the relationship's name as label;
  an inverse relationship gives no edge, so there are as many edges as non-inverse
  declarations. A relationship whose target is the declaring entity gives one edge with
  equal \<open>from\<close> and \<open>to\<close>: the reduction has no error case.
\<close>

theorem C1_edges:
  "elems (Edges (toJsGraph g)) =
     concat (map (\<lambda>n. map (\<lambda>e. \<lparr>From = Type_Name n, To = Edge_Type_Name e, Label = Edge_Name e\<rparr>)
                          (filter (\<lambda>e. \<not> Edge_IsInverse e) (Type_Edges n)))
                 (Graph_Nodes g))
   \<and> length (elems (Edges (toJsGraph g))) =
       sum_list (map (\<lambda>n. length (filter (\<lambda>e. \<not> Edge_IsInverse e) (Type_Edges n))) (Graph_Nodes g))
   \<and> Edges (toJsGraph \<lparr>Config_Target = t, Graph_Nodes =
         [\<lparr>Type_Name = a, Type_Fields = fs, Type_Edges =
             [\<lparr>Edge_Name = l, Edge_Type_Name = a, Edge_IsInverse = False\<rparr>]\<rparr>]\<rparr>) =
       Some [\<lparr>From = a, To = a, Label = l\<rparr>]"
proof -
  have edges: "elems (Edges (toJsGraph g)) = concat (map declared_edges (Graph_Nodes g))" for g
    by (simp add: toJsGraph_eq elems_slice_of)
  have unfold: "declared_edges =
      (\<lambda>n. map (\<lambda>e. \<lparr>From = Type_Name n, To = Edge_Type_Name e, Label = Edge_Name e\<rparr>)
                (filter (\<lambda>e. \<not> Edge_IsInverse e) (Type_Edges n)))"
    by (rule ext) (simp add: declared_edges_def edge_of_def)
  have len: "length (concat (map declared_edges ns)) =
      sum_list (map (\<lambda>n. length (filter (\<lambda>e. \<not> Edge_IsInverse e) (Type_Edges n))) ns)" for ns
    by (induction ns) (simp_all add: declared_edges_def)
  have loop: "Edges (toJsGraph \<lparr>Config_Target = t, Graph_Nodes =
         [\<lparr>Type_Name = a, Type_Fields = fs, Type_Edges =
             [\<lparr>Edge_Name = l, Edge_Type_Name = a, Edge_IsInverse = False\<rparr>]\<rparr>]\<rparr>) =
       Some [\<lparr>From = a, To = a, Label = l\<rparr>]"
    by (simp add: toJsGraph_eq declared_edges_def edge_of_def slice_of_def)
  show ?thesis
    using edges [of g] len [of "Graph_Nodes g"] loop by (simp add: unfold)
qed

text \<open>
  C6. For every graph the JSON text has the key \<open>nodes\<close> before \<open>edges\<close>; in a node
  \<open>id\<close> before \<open>fields\<close>; in a field \<open>name\<close>, \<open>type\<close>, \<open>comment\<close>; in an edge
  \<open>from\<close>, \<open>to\<close>, \<open>label\<close>. No key is ever left out, and the empty comment is
  written as \<open>"comment":""\<close>.
\<close>

theorem C6_key_order:
  \<open>Marshal_jsGraph graph =
     Inr (''{"nodes":'' @ sliceEncoder (structEncoder jsNode_fields) (Nodes graph) @
          '',"edges":'' @ sliceEncoder (structEncoder jsEdge_fields) (Edges graph) @ ''}'')
   \<and> structEncoder jsNode_fields node =
       ''{"id":'' @ stringEncoder (ID node) @
       '',"fields":'' @ sliceEncoder (structEncoder jsField_fields) (Fields node) @ ''}''
   \<and> structEncoder jsField_fields f =
       ''{"name":'' @ stringEncoder (Name f) @ '',"type":'' @ stringEncoder (Type f) @
       '',"comment":'' @ stringEncoder (Comment f) @ ''}''
   \<and> structEncoder jsEdge_fields e =
       ''{"from":'' @ stringEncoder (From e) @ '',"to":'' @ stringEncoder (To e) @
       '',"label":'' @ stringEncoder (Label e) @ ''}''
   \<and> structEncoder jsField_fields (f\<lparr>Comment := []\<rparr>) =
       ''{"name":'' @ stringEncoder (Name f) @ '',"type":'' @ stringEncoder (Type f) @
       '',"comment":""}''\<close>
  by (simp add: Marshal_jsGraph_def jsGraph_json jsNode_json jsField_json jsEdge_json
      stringEncoder_empty)

text \<open>The JSON text of a slice built by appending: \<open>null\<close> when nothing was appended.\<close>

definition array_text :: "string list \<Rightarrow> string" where
  "array_text xs = (if xs = [] then ''null'' else ''['' @ separated xs @ '']'')"

lemma sliceEncoder_slice_of:
  "sliceEncoder elemEnc (slice_of vs) = array_text (map elemEnc vs)"
  by (simp add: slice_of_def array_text_def arrayEncoder_separated)

lemma Marshal_toJsGraph:
  \<open>Marshal_jsGraph (toJsGraph g) =
     Inr (''{"nodes":'' @
          array_text (map (\<lambda>n. structEncoder jsNode_fields (node_of n)) (Graph_Nodes g)) @
          '',"edges":'' @
          array_text (map (structEncoder jsEdge_fields) (concat (map declared_edges (Graph_Nodes g)))) @
          ''}'')\<close>
  by (simp add: Marshal_jsGraph_def jsGraph_json toJsGraph_eq sliceEncoder_slice_of comp_def)

text \<open>
  The example of the specification: an entity \<open>User\<close> with one field and one
  relationship \<open>pets\<close> to the entity \<open>Pet\<close>, which has no field and no relationship. The
  comment is the UTF-8 text of four Chinese characters (U+7528 U+6237 U+59D3 U+540D).
\<close>

definition User_Pet_graph :: "string \<Rightarrow> gen_Graph" where
  "User_Pet_graph target =
     \<lparr>Config_Target = target,
      Graph_Nodes =
        [\<lparr>Type_Name = ''User'',
          Type_Fields =
            [\<lparr>Field_Name = ''name'', Field_Type_String = ''string'',
              Field_Comment =
                [CHR 0xE7, CHR 0x94, CHR 0xA8, CHR 0xE6, CHR 0x88, CHR 0xB7,
                 CHR 0xE5, CHR 0xA7, CHR 0x93, CHR 0xE5, CHR 0x90, CHR 0x8D]\<rparr>],
          Type_Edges =
            [\<lparr>Edge_Name = ''pets'', Edge_Type_Name = ''Pet'', Edge_IsInverse = False\<rparr>]\<rparr>,
         \<lparr>Type_Name = ''Pet'', Type_Fields = [], Type_Edges = []\<rparr>]\<rparr>"

lemma User_Pet_reduced:
  "toJsGraph (User_Pet_graph t) =
     \<lparr>Nodes = Some
        [\<lparr>ID = ''User'', Fields = Some
            [\<lparr>Name = ''name'', Type = ''string'', Comment =
                [CHR 0xE7, CHR 0x94, CHR 0xA8, CHR 0xE6, CHR 0x88, CHR 0xB7,
                 CHR 0xE5, CHR 0xA7, CHR 0x93, CHR 0xE5, CHR 0x90, CHR 0x8D]\<rparr>]\<rparr>,
         \<lparr>ID = ''Pet'', Fields = None\<rparr>],
      Edges = Some [\<lparr>From = ''User'', To = ''Pet'', Label = ''pets''\<rparr>]\<rparr>"
  by (simp add: User_Pet_graph_def toJsGraph_def)

lemma comment_json: \<open>stringEncoder [CHR 0xE7, CHR 0x94, CHR 0xA8, CHR 0xE6, CHR 0x88, CHR 0xB7,
                 CHR 0xE5, CHR 0xA7, CHR 0x93, CHR 0xE5, CHR 0x90, CHR 0x8D] =
    [CHR 0x22, CHR 0xE7, CHR 0x94, CHR 0xA8, CHR 0xE6, CHR 0x88, CHR 0xB7,
                 CHR 0xE5, CHR 0xA7, CHR 0x93, CHR 0xE5, CHR 0x90, CHR 0x8D, CHR 0x22]\<close>
  by (simp add: eval_string)

lemma ascii_json: \<open>stringEncoder ''User'' = ''"User"''\<close> \<open>stringEncoder ''Pet'' = ''"Pet"''\<close>
  \<open>stringEncoder ''pets'' = ''"pets"''\<close> \<open>stringEncoder ''name'' = ''"name"''\<close>
  \<open>stringEncoder ''string'' = ''"string"''\<close>
  by (simp_all add: eval_string)


text \<open>
  C5. The JSON text is a function of the graph's nodes alone: two graphs with the same
  nodes, fields and relationships in the same order give the same bytes. The nodes of the
  text follow the input's nodes, each with its fields in their order, and the edges
  follow the nodes and, within a node, the order of declaration.
\<close>

theorem C5_deterministic_order:
  \<open>(Graph_Nodes g1 = Graph_Nodes g2 \<longrightarrow>
      Marshal_jsGraph (toJsGraph g1) = Marshal_jsGraph (toJsGraph g2))
   \<and> map ID (elems (Nodes (toJsGraph g))) = map Type_Name (Graph_Nodes g)
   \<and> map (\<lambda>node. elems (Fields node)) (elems (Nodes (toJsGraph g))) =
       map (\<lambda>n. map field_of (Type_Fields n)) (Graph_Nodes g)
   \<and> elems (Edges (toJsGraph g)) =
       concat (map (\<lambda>n. map (edge_of n) (filter (\<lambda>e. \<not> Edge_IsInverse e) (Type_Edges n)))
                   (Graph_Nodes g))
   \<and> Marshal_jsGraph (toJsGraph g) =
       Inr (''{"nodes":'' @
            array_text (map (\<lambda>n. structEncoder jsNode_fields (node_of n)) (Graph_Nodes g)) @
            '',"edges":'' @
            array_text (map (structEncoder jsEdge_fields)
              (concat (map (\<lambda>n. map (edge_of n) (filter (\<lambda>e. \<not> Edge_IsInverse e) (Type_Edges n)))
                           (Graph_Nodes g)))) @
            ''}'')\<close>
proof -
  have unfold: "declared_edges =
      (\<lambda>n. map (edge_of n) (filter (\<lambda>e. \<not> Edge_IsInverse e) (Type_Edges n)))"
    by (rule ext) (simp add: declared_edges_def)
  have same: "Graph_Nodes g1 = Graph_Nodes g2 \<longrightarrow>
      Marshal_jsGraph (toJsGraph g1) = Marshal_jsGraph (toJsGraph g2)"
    by (simp add: toJsGraph_def)
  have ids: "map ID (elems (Nodes (toJsGraph g))) = map Type_Name (Graph_Nodes g)"
    by (simp add: toJsGraph_eq elems_slice_of node_of_def comp_def)
  have flds: "map (\<lambda>node. elems (Fields node)) (elems (Nodes (toJsGraph g))) =
       map (\<lambda>n. map field_of (Type_Fields n)) (Graph_Nodes g)"
    by (simp add: toJsGraph_eq elems_slice_of node_of_def comp_def)
  have edges: "elems (Edges (toJsGraph g)) = concat (map declared_edges (Graph_Nodes g))"
    by (simp add: toJsGraph_eq elems_slice_of)
  show ?thesis
    using same ids flds edges Marshal_toJsGraph [of g] by (simp add: unfold)
qed

theorem C5_deterministic_order_witness:
  "Graph_Nodes (User_Pet_graph ''ent'') = Graph_Nodes (User_Pet_graph ''out'')
   \<and> User_Pet_graph ''ent'' \<noteq> User_Pet_graph ''out''
   \<and> Marshal_jsGraph (toJsGraph (User_Pet_graph ''ent'')) =
       Marshal_jsGraph (toJsGraph (User_Pet_graph ''out''))"
  using C5_deterministic_order [of "User_Pet_graph ''ent''" "User_Pet_graph ''out''"]
  by (simp add: User_Pet_graph_def)

text \<open>
  C3 does not hold as stated: for the example graph the entity without fields is written
  with \<open>"fields":null\<close>, not \<open>"fields":[]\<close>, since \<^verbatim>\<open>node.Fields\<close> is still the nil
  slice when nothing was appended to it.
\<close>

theorem C3_fields_empty_array_counterexample:
  \<open>Marshal_jsGraph (toJsGraph (User_Pet_graph [])) \<noteq>
     Inr (''{"nodes":[{"id":"User","fields":[{"name":"name","type":"string","comment":"'' @
          [CHR 0xE7, CHR 0x94, CHR 0xA8, CHR 0xE6, CHR 0x88, CHR 0xB7,
           CHR 0xE5, CHR 0xA7, CHR 0x93, CHR 0xE5, CHR 0x90, CHR 0x8D] @
          ''"}]},{"id":"Pet","fields":[]}],"edges":[{"from":"User","to":"Pet","label":"pets"}]}'')\<close>
  by (simp add: User_Pet_reduced Marshal_jsGraph_def jsGraph_json jsNode_json jsField_json
      jsEdge_json arrayEncoder_def comment_json ascii_json)

text \<open>
  C3, amended. For the example graph (whatever the target directory) the JSON text has
  the nodes \<open>User\<close>, with its one field and the comment's bytes as they are, and
  \<open>Pet\<close>, whose \<open>fields\<close> key is \<open>null\<close>, and the one edge from \<open>User\<close> to \<open>Pet\<close>
  labelled \<open>pets\<close>.
\<close>

theorem C3_example_json:
  \<open>Marshal_jsGraph (toJsGraph (User_Pet_graph t)) =
     Inr (''{"nodes":[{"id":"User","fields":[{"name":"name","type":"string","comment":"'' @
          [CHR 0xE7, CHR 0x94, CHR 0xA8, CHR 0xE6, CHR 0x88, CHR 0xB7,
           CHR 0xE5, CHR 0xA7, CHR 0x93, CHR 0xE5, CHR 0x90, CHR 0x8D] @
          ''"}]},{"id":"Pet","fields":null}],"edges":[{"from":"User","to":"Pet","label":"pets"}]}'')\<close>
  by (simp add: User_Pet_reduced Marshal_jsGraph_def jsGraph_json jsNode_json jsField_json
      jsEdge_json arrayEncoder_def comment_json ascii_json)

text \<open>
  C10. A slice nothing was appended to is nil and is written as \<open>null\<close>: the graph
  without entities gives \<open>{"nodes":null,"edges":null}\<close>; \<^verbatim>\<open>graph.Nodes\<close> is nil exactly
  when the graph has no entity, and \<^verbatim>\<open>graph.Edges\<close> is nil exactly when every declared
  relationship is inverse, and then the text ends with \<open>"edges":null\<close>.
\<close>

theorem C10_nil_slices_null:
  \<open>Marshal_jsGraph (toJsGraph \<lparr>Config_Target = t, Graph_Nodes = []\<rparr>) =
     Inr ''{"nodes":null,"edges":null}''
   \<and> (Nodes (toJsGraph g) = None) = (Graph_Nodes g = [])
   \<and> (Edges (toJsGraph g) = None) =
       (\<forall>n \<in> set (Graph_Nodes g). \<forall>e \<in> set (Type_Edges n). Edge_IsInverse e)
   \<and> ((\<forall>n \<in> set (Graph_Nodes g). \<forall>e \<in> set (Type_Edges n). Edge_IsInverse e) \<longrightarrow>
        Marshal_jsGraph (toJsGraph g) =
          Inr (''{"nodes":'' @ sliceEncoder (structEncoder jsNode_fields) (Nodes (toJsGraph g)) @
               '',"edges":null}''))\<close>
proof -
  have empty: \<open>Marshal_jsGraph (toJsGraph \<lparr>Config_Target = t, Graph_Nodes = []\<rparr>) =
     Inr ''{"nodes":null,"edges":null}''\<close>
    by (simp add: toJsGraph_def Marshal_jsGraph_def jsGraph_json)
  have nodes: "(Nodes (toJsGraph g) = None) = (Graph_Nodes g = [])"
    by (simp add: toJsGraph_eq slice_of_def)
  have edges: "(Edges (toJsGraph g) = None) =
       (\<forall>n \<in> set (Graph_Nodes g). \<forall>e \<in> set (Type_Edges n). Edge_IsInverse e)"
    by (auto simp: toJsGraph_eq slice_of_def declared_edges_def filter_empty_conv)
  have tail: \<open>Edges (toJsGraph g) = None \<longrightarrow>
        Marshal_jsGraph (toJsGraph g) =
          Inr (''{"nodes":'' @ sliceEncoder (structEncoder jsNode_fields) (Nodes (toJsGraph g)) @
               '',"edges":null}'')\<close>
    by (simp add: Marshal_jsGraph_def jsGraph_json)
  show ?thesis
    using empty nodes edges tail by simp
qed

theorem C10_nil_slices_null_witness:
  \<open>list_all (\<lambda>n. list_all Edge_IsInverse (Type_Edges n))
      [\<lparr>Type_Name = ''A'', Type_Fields = [], Type_Edges =
        [\<lparr>Edge_Name = ''owner'', Edge_Type_Name = ''B'', Edge_IsInverse = True\<rparr>]\<rparr>]
   \<and> Marshal_jsGraph (toJsGraph \<lparr>Config_Target = [], Graph_Nodes =
        [\<lparr>Type_Name = ''A'', Type_Fields = [], Type_Edges =
           [\<lparr>Edge_Name = ''owner'', Edge_Type_Name = ''B'', Edge_IsInverse = True\<rparr>]\<rparr>]\<rparr>) =
       Inr ''{"nodes":[{"id":"A","fields":null}],"edges":null}''\<close>
  using C10_nil_slices_null [of "[]" "\<lparr>Config_Target = [], Graph_Nodes =
        [\<lparr>Type_Name = ''A'', Type_Fields = [], Type_Edges =
           [\<lparr>Edge_Name = ''owner'', Edge_Type_Name = ''B'', Edge_IsInverse = True\<rparr>]\<rparr>]\<rparr>"]
  by (simp add: toJsGraph_def jsNode_json arrayEncoder_def eval_string)

section \<open>The template and generateHTML\<close>

text \<open>
  \<^verbatim>\<open>templateData\<close>, with the bytes of the three assets and of the JSON text. The types
  \<^verbatim>\<open>template.CSS\<close> and \<^verbatim>\<open>template.JS\<close> are strings; the type tells \<^verbatim>\<open>html/template\<close>
  where the value may be written as it is.
\<close>

record templateData =
  FiraCodeCSS :: string
  VisNetworkJS :: string
  RandomColorJS :: string
  GraphJSON :: string

datatype contentType = contentTypeCSS | contentTypeJS

text \<open>
  Evaluating \<^verbatim>\<open>.Field\<close> on a \<^verbatim>\<open>templateData\<close> gives the value of the field, of the type
  declared in the struct: a name that is not one of the four fields of the struct is an
  execution error.
\<close>

definition evalField :: "templateData \<Rightarrow> string \<Rightarrow> error + contentType \<times> string" where
  "evalField data fieldName =
     (if fieldName = ''FiraCodeCSS'' then Inr (contentTypeCSS, FiraCodeCSS data)
      else if fieldName = ''VisNetworkJS'' then Inr (contentTypeJS, VisNetworkJS data)
      else if fieldName = ''RandomColorJS'' then Inr (contentTypeJS, RandomColorJS data)
      else if fieldName = ''GraphJSON'' then Inr (contentTypeJS, GraphJSON data)
      else Inl (ExecError fieldName))"

text \<open>
  \<^verbatim>\<open>htmlEscaper\<close> of \<^verbatim>\<open>html/template\<close>, the escaper of an action in HTML text. A
  value whose type is not \<^verbatim>\<open>template.HTML\<close> goes through \<^verbatim>\<open>htmlReplacer\<close> with
  \<^verbatim>\<open>htmlReplacementTable\<close> and \<^verbatim>\<open>badRunes\<close> set: a rune with an entry in the table is
  replaced by the entry and every other rune keeps its bytes. The table has entries
  for NUL (the bytes of U+FFFD), the double quote, the ampersand, the apostrophe, the
  plus sign, \<open><\<close> and \<open>>\<close>; its length is that of its last index and one more, and the
  empty string stands for no entry.
\<close>

definition htmlReplacementTable :: "nat \<Rightarrow> string" where
  \<open>htmlReplacementTable r =
     (if r = 0 then [CHR 0xEF, CHR 0xBF, CHR 0xBD]
      else if r = 0x22 then ''&#34;''
      else if r = 0x26 then ''&amp;''
      else if r = 0x27 then ''&#39;''
      else if r = 0x2B then ''&#43;''
      else if r = 0x3C then ''&lt;''
      else if r = 0x3E then ''&gt;''
      else [])\<close>

text \<open>
  The loop of \<^verbatim>\<open>htmlReplacer\<close>, with every rune written when it is read (Go copies the
  bytes since the last replacement at the next one and at the end).
\<close>

function htmlReplacer :: "string \<Rightarrow> string" where
  "htmlReplacer [] = []"
| "htmlReplacer (c # cs) =
     (case DecodeRuneInString (c # cs) of
        (r, w) \<Rightarrow>
          (if r < 0x3F \<and> htmlReplacementTable r \<noteq> [] then htmlReplacementTable r
           else take w (c # cs))
          @ htmlReplacer (drop w (c # cs)))"
  by pat_completeness auto
termination
  by (relation "measure length") (auto dest: DecodeRuneInString_Cons_pos)

definition htmlEscaper :: "contentType \<Rightarrow> string \<Rightarrow> string" where
  "htmlEscaper t s = htmlReplacer s"

text \<open>
  \<^verbatim>\<open>html/template\<close> rewrites a template once, before its first execution: it follows
  the text of the template, finds for every action the context it stands in and adds to
  the action the escapers of that context; a template it cannot place is refused. The
  state of the context at an action, with what is written for a value there:

    \<^item> \<^verbatim>\<open>stateText\<close>, HTML text: the value escaped by \<^verbatim>\<open>htmlEscaper\<close>.

    \<^item> \<^verbatim>\<open>stateJS\<close>, a JavaScript value inside a \<^verbatim>\<open>script\<close> element: \<^verbatim>\<open>jsValEscaper\<close>
      returns a \<^verbatim>\<open>template.JS\<close> as it is.

    \<^item> \<^verbatim>\<open>stateCSS\<close>, inside a \<^verbatim>\<open>style\<close> element: \<^verbatim>\<open>cssValueFilter\<close> returns a
      \<^verbatim>\<open>template.CSS\<close> as it is.

    \<^item> \<^verbatim>\<open>stateOther\<close>, every other place: inside a string or a regular expression of a
      script, inside a string or a URL of a stylesheet, in a tag, an attribute or a
      comment.

  What \<^verbatim>\<open>jsValEscaper\<close> and \<^verbatim>\<open>cssValueFilter\<close> make of a value of another type, and
  the escapers of the other places, are parameters: the state carries them as
  functions.
\<close>

datatype state =
  stateText
  | stateJS "string \<Rightarrow> string"
  | stateCSS "string \<Rightarrow> string"
  | stateOther "contentType \<Rightarrow> string \<Rightarrow> string"

fun escape :: "state \<Rightarrow> contentType \<Rightarrow> string \<Rightarrow> string" where
  "escape stateText t s = htmlEscaper t s"
| "escape (stateJS other) contentTypeJS s = s"
| "escape (stateJS other) contentTypeCSS s = other s"
| "escape (stateCSS other) contentTypeCSS s = s"
| "escape (stateCSS other) contentTypeJS s = other s"
| "escape (stateOther other) t s = other t s"

text \<open>
  The file \<^verbatim>\<open>viz.tmpl\<close> is embedded at build time; the parsed template \<^verbatim>\<open>viztmpl\<close> is a
  parameter of the model, in the form the rewriting leaves it in. Its nodes are text,
  actions \<^verbatim>\<open>{{.Field}}\<close>, each with the state of the context it stands in, and other
  nodes (a longer pipeline, \<^verbatim>\<open>if\<close>, \<^verbatim>\<open>range\<close>, \<^verbatim>\<open>with\<close>, the call of a template),
  each given by what its execution does with the data: the bytes it writes and the error
  it stops with, if any. \<^verbatim>\<open>escapeErr\<close> is the error of the rewriting, if the template
  was refused.
\<close>

datatype Node =
  TextNode string
  | ActionNode string state
  | OtherNode "templateData \<Rightarrow> error option \<times> string"

record Template =
  escapeErr :: "error option"
  Tree :: "Node list"

text \<open>
  Execution walks the nodes and writes to the buffer as it goes; at an error it stops,
  with what was written so far still in the buffer.
\<close>

fun walk :: "templateData \<Rightarrow> string \<Rightarrow> Node list \<Rightarrow> error option \<times> string" where
  "walk data wr [] = (None, wr)"
| "walk data wr (TextNode t # ns) = walk data (wr @ t) ns"
| "walk data wr (ActionNode f c # ns) =
     (case evalField data f of
        Inl err \<Rightarrow> (Some err, wr)
      | Inr (t, v) \<Rightarrow> walk data (wr @ escape c t v) ns)"
| "walk data wr (OtherNode e # ns) =
     (case e data of
        (Some err, out) \<Rightarrow> (Some err, wr @ out)
      | (None, out) \<Rightarrow> walk data (wr @ out) ns)"

definition Execute :: "Template \<Rightarrow> string \<Rightarrow> templateData \<Rightarrow> error option \<times> string" where
  "Execute t wr data =
     (case escapeErr t of
        Some err \<Rightarrow> (Some err, wr)
      | None \<Rightarrow> walk data wr (Tree t))"

text \<open>
  \<^verbatim>\<open>fs.ReadFile\<close> on the embedded file system \<^verbatim>\<open>assets\<close>, a map from paths to contents,
  fixed at build time by the directory \<^verbatim>\<open>assets\<close>.
\<close>

definition ReadFile :: "(string \<rightharpoonup> string) \<Rightarrow> string \<Rightarrow> error + string" where
  "ReadFile fsys name' =
     (case fsys name' of
        None \<Rightarrow> Inl (PathError ''open'' name')
      | Some data \<Rightarrow> Inr data)"

text \<open>
  \<^verbatim>\<open>generateHTML\<close>. The result \<^verbatim>\<open>([]byte, error)\<close> is either the error, with no bytes, or
  the bytes of the buffer.
\<close>

definition generateHTML :: "(string \<rightharpoonup> string) \<Rightarrow> Template \<Rightarrow> gen_Graph \<Rightarrow> error + string" where
  "generateHTML assets viztmpl g =
     (case ReadFile assets ''assets/fira_code.css'' of
        Inl err \<Rightarrow> Inl err
      | Inr firaCodeCSS \<Rightarrow>
     (case ReadFile assets ''assets/vis-network.min.js'' of
        Inl err \<Rightarrow> Inl err
      | Inr visNetworkJS \<Rightarrow>
     (case ReadFile assets ''assets/randomcolor.min.js'' of
        Inl err \<Rightarrow> Inl err
      | Inr randomColorJS \<Rightarrow>
     (let graph = toJsGraph g in
      case Marshal_jsGraph graph of
        Inl err \<Rightarrow> Inl err
      | Inr graphJSON \<Rightarrow>
     (let data = \<lparr>FiraCodeCSS = firaCodeCSS, VisNetworkJS = visNetworkJS,
                  RandomColorJS = randomColorJS, GraphJSON = graphJSON\<rparr> in
      case Execute viztmpl [] data of
        (Some err, b) \<Rightarrow> Inl err
      | (None, b) \<Rightarrow> Inr b)))))"

section \<open>The hook VisualizeSchema\<close>

text \<open>
  The files of the host are a map from paths to contents. A generator reads the graph
  through a pointer and writes files: it returns its error, the graph as it leaves it
  and the files as it leaves them.
\<close>

type_synonym files = "string \<rightharpoonup> string"

type_synonym Generator = "gen_Graph \<Rightarrow> files \<Rightarrow> error option \<times> gen_Graph \<times> files"

text \<open>
  \<^verbatim>\<open>strings.Join\<close> and \<^verbatim>\<open>filepath.Join\<close> (with the separator of Unix): the elements from
  the first non-empty one on, joined by the separator and passed to \<^verbatim>\<open>filepath.Clean\<close>,
  which is a parameter.
\<close>

fun strings_Join :: "string list \<Rightarrow> string \<Rightarrow> string" where
  "strings_Join [] sep = []"
| "strings_Join [e] sep = e"
| "strings_Join (e # e' # es) sep = e @ sep @ strings_Join (e' # es) sep"

fun Join :: "(string \<Rightarrow> string) \<Rightarrow> string list \<Rightarrow> string" where
  "Join Clean [] = []"
| "Join Clean (e # elem) =
     (if e \<noteq> [] then Clean (strings_Join (e # elem) ''/'') else Join Clean elem)"

text \<open>
  \<^verbatim>\<open>os.WriteFile\<close> opens the file with \<^verbatim>\<open>O_WRONLY|O_CREATE|O_TRUNC\<close>, writes the data and
  closes the file. What the host does at each of the three calls is given by an
  \<open>outcome\<close>: the error of the open, if any; the number of bytes written before the write
  failed and its error, if it failed; the error of the close, if any. A successful open
  leaves the file empty. The error of the close is returned only if the write had none.
\<close>

record outcome =
  open_error :: "error option"
  write_error :: "(nat \<times> error) option"
  close_error :: "error option"

definition WriteFile :: "outcome \<Rightarrow> string \<Rightarrow> string \<Rightarrow> files \<Rightarrow> error option \<times> files" where
  "WriteFile os name' data files =
     (case open_error os of
        Some err \<Rightarrow> (Some err, files)
      | None \<Rightarrow>
          (case write_error os of
             Some (n, err) \<Rightarrow> (Some err, files(name' \<mapsto> take n data))
           | None \<Rightarrow> (close_error os, files(name' \<mapsto> data))))"

text \<open>
  The package-level variables \<^verbatim>\<open>assets\<close> and \<^verbatim>\<open>viztmpl\<close> and the host's
  \<^verbatim>\<open>filepath.Clean\<close>.
\<close>

record package =
  assets :: "string \<rightharpoonup> string"
  viztmpl :: Template
  Clean :: "string \<Rightarrow> string"

definition VisualizeSchema :: "package \<Rightarrow> outcome \<Rightarrow> Generator \<Rightarrow> Generator" where
  "VisualizeSchema pkg os next g files =
     (case next g files of
        (Some err, g1, files1) \<Rightarrow> (Some err, g1, files1)
      | (None, g1, files1) \<Rightarrow>
          (case generateHTML (assets pkg) (viztmpl pkg) g1 of
             Inl err \<Rightarrow> (Some err, g1, files1)
           | Inr buf \<Rightarrow>
               (let path = Join (Clean pkg) [Config_Target g1, ''schema-viz.html''] in
                case WriteFile os path buf files1 of
                  (err, files2) \<Rightarrow> (err, g1, files2))))"
section \<open>Claims about rendering\<close>

text \<open>
  A node executes without error: text always, an action when it names one of the four
  fields of \<^verbatim>\<open>templateData\<close>, another node when its execution returns no error.
\<close>

definition executes :: "templateData \<Rightarrow> Node \<Rightarrow> bool" where
  "executes data n =
     (case n of
        TextNode t \<Rightarrow> True
      | ActionNode f c \<Rightarrow> f \<in> set [''FiraCodeCSS'', ''VisNetworkJS'', ''RandomColorJS'', ''GraphJSON'']
      | OtherNode e \<Rightarrow> fst (e data) = None)"

text \<open>What a node writes.\<close>

definition node_text :: "templateData \<Rightarrow> Node \<Rightarrow> string" where
  "node_text data n =
     (case n of
        TextNode t \<Rightarrow> t
      | ActionNode f c \<Rightarrow> (case evalField data f of Inl err \<Rightarrow> [] | Inr (t, v) \<Rightarrow> escape c t v)
      | OtherNode e \<Rightarrow> snd (e data))"

text \<open>The three assets read by \<^verbatim>\<open>generateHTML\<close> are in the embedded file system.\<close>

definition assets_present :: "(string \<rightharpoonup> string) \<Rightarrow> bool" where
  "assets_present fsys \<longleftrightarrow>
     fsys ''assets/fira_code.css'' \<noteq> None \<and> fsys ''assets/vis-network.min.js'' \<noteq> None \<and>
     fsys ''assets/randomcolor.min.js'' \<noteq> None"

lemma evalField_known:
  "executes data (ActionNode f c) \<Longrightarrow> \<exists>t v. evalField data f = Inr (t, v)"
  by (auto simp: executes_def evalField_def)

lemma evalField_unknown:
  "\<not> executes data (ActionNode f c) \<Longrightarrow> evalField data f = Inl (ExecError f)"
  by (auto simp: executes_def evalField_def)

lemma walk_executes:
  "list_all (executes data) ns \<Longrightarrow> walk data wr ns = (None, wr @ concat (map (node_text data) ns))"
proof (induction ns arbitrary: wr)
  case Nil
  then show ?case by simp
next
  case (Cons n ns)
  show ?case
  proof (cases n)
    case (TextNode t)
    with Cons show ?thesis by (simp add: node_text_def)
  next
    case (ActionNode f c)
    with Cons.prems obtain t v where "evalField data f = Inr (t, v)"
      using evalField_known by fastforce
    with Cons ActionNode show ?thesis by (simp add: node_text_def)
  next
    case (OtherNode e)
    with Cons.prems obtain out where "e data = (None, out)"
      by (cases "e data") (simp add: executes_def)
    with Cons OtherNode show ?thesis by (simp add: node_text_def)
  qed
qed

lemma walk_fails:
  "\<not> list_all (executes data) ns \<Longrightarrow> \<exists>err b. walk data wr ns = (Some err, b)"
proof (induction ns arbitrary: wr)
  case Nil
  then show ?case by simp
next
  case (Cons n ns)
  show ?case
  proof (cases n)
    case (TextNode t)
    with Cons show ?thesis by (simp add: executes_def)
  next
    case (ActionNode f c)
    show ?thesis
    proof (cases "executes data (ActionNode f c)")
      case True
      then obtain t v where "evalField data f = Inr (t, v)"
        using evalField_known by blast
      with Cons ActionNode True show ?thesis by simp
    next
      case False
      with ActionNode show ?thesis by (simp add: evalField_unknown)
    qed
  next
    case (OtherNode e)
    show ?thesis
    proof (cases "e data")
      case (Pair r out)
      show ?thesis
      proof (cases r)
        case None
        with Cons OtherNode Pair show ?thesis by (simp add: executes_def)
      next
        case (Some err)
        with OtherNode Pair show ?thesis by simp
      qed
    qed
  qed
qed

lemma generateHTML_success:
  assumes "fsys ''assets/fira_code.css'' = Some css"
    and "fsys ''assets/vis-network.min.js'' = Some vis"
    and "fsys ''assets/randomcolor.min.js'' = Some rc"
    and "data = \<lparr>FiraCodeCSS = css, VisNetworkJS = vis, RandomColorJS = rc,
            GraphJSON = structEncoder jsGraph_fields (toJsGraph g)\<rparr>"
    and "escapeErr t = None" and "list_all (executes data) (Tree t)"
  shows "generateHTML fsys t g = Inr (concat (map (node_text data) (Tree t)))"
  using assms
  by (simp add: generateHTML_def ReadFile_def Marshal_jsGraph_def Execute_def walk_executes)

lemma generateHTML_iff:
  assumes "fsys ''assets/fira_code.css'' = Some css"
    and "fsys ''assets/vis-network.min.js'' = Some vis"
    and "fsys ''assets/randomcolor.min.js'' = Some rc"
    and "data = \<lparr>FiraCodeCSS = css, VisNetworkJS = vis, RandomColorJS = rc,
            GraphJSON = structEncoder jsGraph_fields (toJsGraph g)\<rparr>"
  shows "(\<exists>out. generateHTML fsys t g = Inr out) \<longleftrightarrow>
     escapeErr t = None \<and> list_all (executes data) (Tree t)"
proof (cases "escapeErr t = None")
  case True
  show ?thesis
  proof (cases "list_all (executes data) (Tree t)")
    case ok: True
    with True show ?thesis
      using generateHTML_success [OF assms, of t] by simp
  next
    case False
    then obtain err b where "walk data [] (Tree t) = (Some err, b)"
      using walk_fails by blast
    with True False assms show ?thesis
      by (simp add: generateHTML_def ReadFile_def Marshal_jsGraph_def Execute_def)
  qed
next
  case False
  with assms show ?thesis
    by (auto simp: generateHTML_def ReadFile_def Marshal_jsGraph_def Execute_def
        split: option.splits)
qed

lemma generateHTML_no_asset:
  "\<not> assets_present fsys \<Longrightarrow> \<exists>err. generateHTML fsys t g = Inl err"
  by (auto simp: generateHTML_def ReadFile_def assets_present_def split: option.splits)

text \<open>
  Three assets, a template without any action and a graph without any entity, for the
  examples below.
\<close>

definition example_assets :: "string \<rightharpoonup> string" where
  "example_assets =
     [''assets/fira_code.css'' \<mapsto> ''a{}'',
      ''assets/vis-network.min.js'' \<mapsto> ''var v;'',
      ''assets/randomcolor.min.js'' \<mapsto> ''var r;'']"

definition text_only :: Template where
  "text_only = \<lparr>escapeErr = None, Tree = [TextNode ''<html></html>'']\<rparr>"

definition empty_graph :: gen_Graph where
  "empty_graph = \<lparr>Config_Target = ''ent'', Graph_Nodes = []\<rparr>"

text \<open>
  C2 does not hold as stated: \<^verbatim>\<open>generateHTML\<close> does not look for the four slots, and a
  template in which all four are absent is rendered without error.
\<close>

theorem C2_absent_slots_counterexample:
  "generateHTML example_assets text_only (User_Pet_graph []) = Inr ''<html></html>''"
  by (simp add: generateHTML_def ReadFile_def example_assets_def text_only_def
      Marshal_jsGraph_def Execute_def)

text \<open>
  C2, amended. Whether the four slots occur in the template plays no part. When the
  three assets are present, rendering succeeds exactly when the template is accepted by
  the escaping pass and every node of the template executes without error, where text
  always does and an action \<^verbatim>\<open>{{.Field}}\<close> does exactly when \<^verbatim>\<open>Field\<close> is one of the
  four fields of \<^verbatim>\<open>templateData\<close>. The page is then the template's text with, in place of
  each action, the value of its field escaped for the place where the action stands:
  a script or the JSON text is written as it is where a value stands in a \<^verbatim>\<open>script\<close>
  element, and the stylesheet as it is in a \<^verbatim>\<open>style\<close> element, whereas in HTML text
  the value is written with its HTML escapes. In every other case, and when an asset is
  missing, the result is an error and no bytes.
\<close>

theorem C2_rendering:
  "(fsys ''assets/fira_code.css'' = Some css \<and> fsys ''assets/vis-network.min.js'' = Some vis \<and>
    fsys ''assets/randomcolor.min.js'' = Some rc \<and>
    data = \<lparr>FiraCodeCSS = css, VisNetworkJS = vis, RandomColorJS = rc,
             GraphJSON = structEncoder jsGraph_fields (toJsGraph g)\<rparr> \<longrightarrow>
      ((\<exists>out. generateHTML fsys t g = Inr out) \<longleftrightarrow>
         escapeErr t = None \<and> list_all (executes data) (Tree t))
      \<and> (escapeErr t = None \<and> list_all (executes data) (Tree t) \<longrightarrow>
           generateHTML fsys t g = Inr (concat (map (node_text data) (Tree t)))))
   \<and> (\<not> assets_present fsys \<longrightarrow> (\<exists>err. generateHTML fsys t g = Inl err))
   \<and> executes d (TextNode x)
   \<and> (executes d (ActionNode f c) \<longleftrightarrow>
        f \<in> set [''FiraCodeCSS'', ''VisNetworkJS'', ''RandomColorJS'', ''GraphJSON''])
   \<and> node_text d (TextNode x) = x
   \<and> node_text d (ActionNode ''FiraCodeCSS'' (stateCSS other)) = FiraCodeCSS d
   \<and> node_text d (ActionNode ''VisNetworkJS'' (stateJS other)) = VisNetworkJS d
   \<and> node_text d (ActionNode ''RandomColorJS'' (stateJS other)) = RandomColorJS d
   \<and> node_text d (ActionNode ''GraphJSON'' (stateJS other)) = GraphJSON d
   \<and> node_text d (ActionNode ''GraphJSON'' stateText) = htmlReplacer (GraphJSON d)"
proof -
  have page: "((\<exists>out. generateHTML fsys t g = Inr out) \<longleftrightarrow>
         escapeErr t = None \<and> list_all (executes data) (Tree t))
      \<and> (escapeErr t = None \<and> list_all (executes data) (Tree t) \<longrightarrow>
           generateHTML fsys t g = Inr (concat (map (node_text data) (Tree t))))"
    if "fsys ''assets/fira_code.css'' = Some css" "fsys ''assets/vis-network.min.js'' = Some vis"
      "fsys ''assets/randomcolor.min.js'' = Some rc"
      "data = \<lparr>FiraCodeCSS = css, VisNetworkJS = vis, RandomColorJS = rc,
             GraphJSON = structEncoder jsGraph_fields (toJsGraph g)\<rparr>"
    using generateHTML_iff [OF that, of t] generateHTML_success [OF that, of t] by blast
  have nodes: "executes d (TextNode x)"
    "executes d (ActionNode f c) \<longleftrightarrow>
        f \<in> set [''FiraCodeCSS'', ''VisNetworkJS'', ''RandomColorJS'', ''GraphJSON'']"
    "node_text d (TextNode x) = x"
    "node_text d (ActionNode ''FiraCodeCSS'' (stateCSS other)) = FiraCodeCSS d"
    "node_text d (ActionNode ''VisNetworkJS'' (stateJS other)) = VisNetworkJS d"
    "node_text d (ActionNode ''RandomColorJS'' (stateJS other)) = RandomColorJS d"
    "node_text d (ActionNode ''GraphJSON'' (stateJS other)) = GraphJSON d"
    "node_text d (ActionNode ''GraphJSON'' stateText) = htmlReplacer (GraphJSON d)"
    by (simp_all add: executes_def node_text_def evalField_def htmlEscaper_def)
  show ?thesis
    using page nodes generateHTML_no_asset [of fsys t g] by blast
qed

text \<open>
  The witness is a template with the stylesheet in a \<^verbatim>\<open>style\<close> element, the two scripts
  in a \<^verbatim>\<open>script\<close> element and the JSON text in a paragraph, where its double quotes are
  written as \<^verbatim>\<open>&#34;\<close>; and an embedded file system without the assets.
\<close>

theorem C2_rendering_witness:
  \<open>example_assets ''assets/fira_code.css'' = Some ''a{}''
   \<and> example_assets ''assets/vis-network.min.js'' = Some ''var v;''
   \<and> example_assets ''assets/randomcolor.min.js'' = Some ''var r;''
   \<and> list_all (executes \<lparr>FiraCodeCSS = ''a{}'', VisNetworkJS = ''var v;'', RandomColorJS = ''var r;'',
          GraphJSON = structEncoder jsGraph_fields (toJsGraph empty_graph)\<rparr>)
        [TextNode ''<style>'', ActionNode ''FiraCodeCSS'' (stateCSS (\<lambda>s. ''ZgotmplZ'')),
         TextNode ''</style><script>'', ActionNode ''VisNetworkJS'' (stateJS stringEncoder),
         ActionNode ''RandomColorJS'' (stateJS stringEncoder), TextNode ''</script><p>'',
         ActionNode ''GraphJSON'' stateText, TextNode ''</p>'']
   \<and> generateHTML example_assets
        \<lparr>escapeErr = None, Tree =
          [TextNode ''<style>'', ActionNode ''FiraCodeCSS'' (stateCSS (\<lambda>s. ''ZgotmplZ'')),
           TextNode ''</style><script>'', ActionNode ''VisNetworkJS'' (stateJS stringEncoder),
           ActionNode ''RandomColorJS'' (stateJS stringEncoder), TextNode ''</script><p>'',
           ActionNode ''GraphJSON'' stateText, TextNode ''</p>'']\<rparr>
        empty_graph =
       Inr ''<style>a{}</style><script>var v;var r;</script><p>{&#34;nodes&#34;:null,&#34;edges&#34;:null}</p>''
   \<and> \<not> assets_present Map.empty
   \<and> (\<exists>err. generateHTML Map.empty text_only empty_graph = Inl err)\<close>
proof -
  let ?t = "\<lparr>escapeErr = None, Tree =
          [TextNode ''<style>'', ActionNode ''FiraCodeCSS'' (stateCSS (\<lambda>s. ''ZgotmplZ'')),
           TextNode ''</style><script>'', ActionNode ''VisNetworkJS'' (stateJS stringEncoder),
           ActionNode ''RandomColorJS'' (stateJS stringEncoder), TextNode ''</script><p>'',
           ActionNode ''GraphJSON'' stateText, TextNode ''</p>'']\<rparr>"
  let ?d = "\<lparr>FiraCodeCSS = ''a{}'', VisNetworkJS = ''var v;'', RandomColorJS = ''var r;'',
          GraphJSON = structEncoder jsGraph_fields (toJsGraph empty_graph)\<rparr>"
  have json: \<open>structEncoder jsGraph_fields (toJsGraph empty_graph) = ''{"nodes":null,"edges":null}''\<close>
    by (simp add: empty_graph_def toJsGraph_def jsGraph_json)
  have esc: \<open>htmlReplacer ''{"nodes":null,"edges":null}'' =
      ''{&#34;nodes&#34;:null,&#34;edges&#34;:null}''\<close>
    by (simp add: htmlReplacementTable_def eval_string)
  have ok: "list_all (executes ?d) (Tree ?t)"
    by (simp add: executes_def)
  have "generateHTML example_assets ?t empty_graph = Inr (concat (map (node_text ?d) (Tree ?t)))"
    using C2_rendering [of example_assets "''a{}''" "''var v;''" "''var r;''" ?d empty_graph ?t] ok
    by (simp add: example_assets_def)
  also have "concat (map (node_text ?d) (Tree ?t)) =
      ''<style>a{}</style><script>var v;var r;</script><p>'' @
      htmlReplacer (structEncoder jsGraph_fields (toJsGraph empty_graph)) @ ''</p>''"
    by (simp add: node_text_def evalField_def htmlEscaper_def del: htmlReplacer.simps)
  finally have "generateHTML example_assets ?t empty_graph =
      Inr ''<style>a{}</style><script>var v;var r;</script><p>{&#34;nodes&#34;:null,&#34;edges&#34;:null}</p>''"
    unfolding json esc by simp
  moreover have "\<not> assets_present Map.empty \<and>
      (\<exists>err. generateHTML Map.empty text_only empty_graph = Inl err)"
    using C2_rendering [of Map.empty _ _ _ _ empty_graph text_only]
    by (simp add: assets_present_def)
  ultimately show ?thesis
    using ok by (simp add: example_assets_def)
qed

section \<open>Claims about the hook\<close>

text \<open>
  C8. The hook runs the next generator first. If that fails, its error is the hook's
  result and nothing else is done. Otherwise the page is generated from the graph; if an
  asset cannot be read or the template's execution fails, that error is the result of
  \<^verbatim>\<open>generateHTML\<close> and of the hook, and no file is written. Otherwise the bytes are
  written to \<^verbatim>\<open>schema-viz.html\<close> joined to the configured target directory.
\<close>

theorem C8_hook:
  "(next g files = (Some err, g1, files1) \<longrightarrow>
      VisualizeSchema pkg os next g files = (Some err, g1, files1))
   \<and> (next g files = (None, g1, files1) \<and>
       generateHTML (assets pkg) (viztmpl pkg) g1 = Inl err \<longrightarrow>
      VisualizeSchema pkg os next g files = (Some err, g1, files1))
   \<and> (next g files = (None, g1, files1) \<and>
       generateHTML (assets pkg) (viztmpl pkg) g1 = Inr buf \<and>
       open_error os = None \<and> write_error os = None \<and> close_error os = None \<longrightarrow>
      VisualizeSchema pkg os next g files =
        (None, g1, files1(Join (Clean pkg) [Config_Target g1, ''schema-viz.html''] \<mapsto> buf)))
   \<and> (Config_Target g1 \<noteq> [] \<longrightarrow>
       Join (Clean pkg) [Config_Target g1, ''schema-viz.html''] =
         Clean pkg (Config_Target g1 @ ''/schema-viz.html''))
   \<and> (ReadFile fsys ''assets/fira_code.css'' = Inl err \<longrightarrow> generateHTML fsys t g = Inl err)
   \<and> (ReadFile fsys ''assets/fira_code.css'' = Inr css \<and>
       ReadFile fsys ''assets/vis-network.min.js'' = Inl err \<longrightarrow> generateHTML fsys t g = Inl err)
   \<and> (ReadFile fsys ''assets/fira_code.css'' = Inr css \<and>
       ReadFile fsys ''assets/vis-network.min.js'' = Inr vis \<and>
       ReadFile fsys ''assets/randomcolor.min.js'' = Inl err \<longrightarrow> generateHTML fsys t g = Inl err)
   \<and> (ReadFile fsys ''assets/fira_code.css'' = Inr css \<and>
       ReadFile fsys ''assets/vis-network.min.js'' = Inr vis \<and>
       ReadFile fsys ''assets/randomcolor.min.js'' = Inr rc \<and>
       Execute t [] \<lparr>FiraCodeCSS = css, VisNetworkJS = vis, RandomColorJS = rc,
         GraphJSON = structEncoder jsGraph_fields (toJsGraph g)\<rparr> = (Some err, b) \<longrightarrow>
       generateHTML fsys t g = Inl err)"
  by (simp add: VisualizeSchema_def WriteFile_def generateHTML_def Marshal_jsGraph_def)

theorem C8_hook_witness:
  "VisualizeSchema \<lparr>assets = example_assets, viztmpl = text_only, Clean = (\<lambda>p. p)\<rparr>
      \<lparr>open_error = None, write_error = None, close_error = None\<rparr>
      (\<lambda>g files. (Some (OtherError ''next''), g, files)) (User_Pet_graph ''ent'') Map.empty =
     (Some (OtherError ''next''), User_Pet_graph ''ent'', Map.empty)
   \<and> VisualizeSchema \<lparr>assets = Map.empty, viztmpl = text_only, Clean = (\<lambda>p. p)\<rparr>
      \<lparr>open_error = None, write_error = None, close_error = None\<rparr>
      (\<lambda>g files. (None, g, files)) (User_Pet_graph ''ent'') Map.empty =
     (Some (PathError ''open'' ''assets/fira_code.css''), User_Pet_graph ''ent'', Map.empty)
   \<and> VisualizeSchema \<lparr>assets = example_assets, viztmpl = text_only, Clean = (\<lambda>p. p)\<rparr>
      \<lparr>open_error = None, write_error = None, close_error = None\<rparr>
      (\<lambda>g files. (None, g, files)) (User_Pet_graph ''ent'') Map.empty =
     (None, User_Pet_graph ''ent'', [''ent/schema-viz.html'' \<mapsto> ''<html></html>''])"
proof -
  let ?ok = "\<lparr>open_error = None, write_error = None, close_error = None\<rparr>"
  let ?g = "User_Pet_graph ''ent''"
  have html: "generateHTML example_assets text_only ?g = Inr ''<html></html>''"
    by (simp add: generateHTML_def ReadFile_def example_assets_def text_only_def
        Marshal_jsGraph_def Execute_def)
  have none: "generateHTML Map.empty text_only ?g = Inl (PathError ''open'' ''assets/fira_code.css'')"
    by (simp add: generateHTML_def ReadFile_def)
  have target: "Config_Target ?g = ''ent''"
    by (simp add: User_Pet_graph_def)
  have 1: "VisualizeSchema \<lparr>assets = example_assets, viztmpl = text_only, Clean = (\<lambda>p. p)\<rparr> ?ok
      (\<lambda>g files. (Some (OtherError ''next''), g, files)) ?g Map.empty =
     (Some (OtherError ''next''), ?g, Map.empty)"
    using C8_hook [of "\<lambda>g files. (Some (OtherError ''next''), g, files)" ?g Map.empty
        "OtherError ''next''" ?g Map.empty
        "\<lparr>assets = example_assets, viztmpl = text_only, Clean = (\<lambda>p. p)\<rparr>" ?ok]
    by simp
  have 2: "VisualizeSchema \<lparr>assets = Map.empty, viztmpl = text_only, Clean = (\<lambda>p. p)\<rparr> ?ok
      (\<lambda>g files. (None, g, files)) ?g Map.empty =
     (Some (PathError ''open'' ''assets/fira_code.css''), ?g, Map.empty)"
    using C8_hook [of "\<lambda>g files. (None, g, files)" ?g Map.empty
        "PathError ''open'' ''assets/fira_code.css''" ?g Map.empty
        "\<lparr>assets = Map.empty, viztmpl = text_only, Clean = (\<lambda>p. p)\<rparr>" ?ok] none
    by simp
  have 3: "VisualizeSchema \<lparr>assets = example_assets, viztmpl = text_only, Clean = (\<lambda>p. p)\<rparr> ?ok
      (\<lambda>g files. (None, g, files)) ?g Map.empty =
     (None, ?g, [''ent/schema-viz.html'' \<mapsto> ''<html></html>''])"
    using C8_hook [of "\<lambda>g files. (None, g, files)" ?g Map.empty
        _ ?g Map.empty
        "\<lparr>assets = example_assets, viztmpl = text_only, Clean = (\<lambda>p. p)\<rparr>" ?ok
        "''<html></html>''"] html target
    by simp
  show ?thesis using 1 2 3 by simp
qed

text \<open>
  C9 does not hold as stated: \<^verbatim>\<open>os.WriteFile\<close> truncates the file and then writes, so
  a write that fails after six of the thirteen bytes of the page returns its error and
  leaves \<^verbatim>\<open>schema-viz.html\<close> holding those six bytes.
\<close>

theorem C9_partial_file_counterexample:
  "generateHTML example_assets text_only (User_Pet_graph ''ent'') = Inr ''<html></html>''
   \<and> VisualizeSchema \<lparr>assets = example_assets, viztmpl = text_only, Clean = (\<lambda>p. p)\<rparr>
      \<lparr>open_error = None,
        write_error = Some (6, OtherError ''no space left on device''),
        close_error = None\<rparr>
      (\<lambda>g files. (None, g, files)) (User_Pet_graph ''ent'') Map.empty =
     (Some (OtherError ''no space left on device''), User_Pet_graph ''ent'',
      [''ent/schema-viz.html'' \<mapsto> ''<html>''])"
proof -
  have html: "generateHTML example_assets text_only (User_Pet_graph ''ent'') = Inr ''<html></html>''"
    by (simp add: generateHTML_def ReadFile_def example_assets_def text_only_def
        Marshal_jsGraph_def Execute_def)
  have target: "Config_Target (User_Pet_graph ''ent'') = ''ent''"
    by (simp add: User_Pet_graph_def)
  show ?thesis
    by (simp add: html target VisualizeSchema_def WriteFile_def)
qed

text \<open>
  C9, amended. When the page was generated and the write fails, the error of the failing
  call is returned as it is. A failed open leaves the files as the next generator left
  them; a write that fails after \<open>n\<close> bytes leaves the file holding the first \<open>n\<close> bytes
  of the page; if only the close fails the file holds the whole page. The write is not
  atomic.
\<close>

theorem C9_write_failure:
  "next g files = (None, g1, files1) \<and>
   generateHTML (assets pkg) (viztmpl pkg) g1 = Inr buf \<and>
   path = Join (Clean pkg) [Config_Target g1, ''schema-viz.html''] \<longrightarrow>
     (open_error os = Some err \<longrightarrow>
        VisualizeSchema pkg os next g files = (Some err, g1, files1))
   \<and> (open_error os = None \<and> write_error os = Some (n, err) \<longrightarrow>
        VisualizeSchema pkg os next g files = (Some err, g1, files1(path \<mapsto> take n buf)))
   \<and> (open_error os = None \<and> write_error os = None \<longrightarrow>
        VisualizeSchema pkg os next g files = (close_error os, g1, files1(path \<mapsto> buf)))"
  by (simp add: VisualizeSchema_def WriteFile_def)

theorem C9_write_failure_witness:
  "VisualizeSchema \<lparr>assets = example_assets, viztmpl = text_only, Clean = (\<lambda>p. p)\<rparr>
      \<lparr>open_error = None,
        write_error = Some (0, OtherError ''input/output error''),
        close_error = None\<rparr>
      (\<lambda>g files. (None, g, files)) (User_Pet_graph ''ent'') [''ent/schema-viz.html'' \<mapsto> ''old''] =
     (Some (OtherError ''input/output error''), User_Pet_graph ''ent'',
      [''ent/schema-viz.html'' \<mapsto> []])"
proof -
  have html: "generateHTML example_assets text_only (User_Pet_graph ''ent'') = Inr ''<html></html>''"
    by (simp add: generateHTML_def ReadFile_def example_assets_def text_only_def
        Marshal_jsGraph_def Execute_def)
  have target: "Config_Target (User_Pet_graph ''ent'') = ''ent''"
    by (simp add: User_Pet_graph_def)
  show ?thesis
    using C9_write_failure [of "\<lambda>g files. (None, g, files)" "User_Pet_graph ''ent''"
        "[''ent/schema-viz.html'' \<mapsto> ''old'']" "User_Pet_graph ''ent''"
        "[''ent/schema-viz.html'' \<mapsto> ''old'']"
        "\<lparr>assets = example_assets, viztmpl = text_only, Clean = (\<lambda>p. p)\<rparr>"
        "''<html></html>''" "''ent/schema-viz.html''"
        "\<lparr>open_error = None, write_error = Some (0, OtherError ''input/output error''),
          close_error = None\<rparr>"
        "OtherError ''input/output error''" 0] html target
    by simp
qed

section \<open>Go's JSON decoding of a string literal\<close>

text \<open>
  \<^verbatim>\<open>utf8.EncodeRune\<close>: the bytes of a rune. \<^verbatim>\<open>byte(x)\<close> keeps the low eight bits. A rune
  beyond \<^verbatim>\<open>MaxRune\<close> or in the surrogate range is written as \<^verbatim>\<open>RuneError\<close>.
\<close>

definition byte :: "nat \<Rightarrow> nat" where
  "byte x = x mod 256"

definition EncodeRune3 :: "nat \<Rightarrow> string" where
  "EncodeRune3 r =
     [char_of (or 0xE0 (byte (drop_bit 12 r))),
      char_of (or 0x80 (and (byte (drop_bit 6 r)) 0x3F)),
      char_of (or 0x80 (and (byte r) 0x3F))]"

definition EncodeRune :: "nat \<Rightarrow> string" where
  "EncodeRune r =
     (if r \<le> 0x7F then [char_of (byte r)]
      else if r \<le> 0x7FF then
        [char_of (or 0xC0 (byte (drop_bit 6 r))), char_of (or 0x80 (and (byte r) 0x3F))]
      else if r > 0x10FFFF \<or> (0xD800 \<le> r \<and> r \<le> 0xDFFF) then EncodeRune3 RuneError
      else if r \<le> 0xFFFF then EncodeRune3 r
      else
        [char_of (or 0xF0 (byte (drop_bit 18 r))),
         char_of (or 0x80 (and (byte (drop_bit 12 r)) 0x3F)),
         char_of (or 0x80 (and (byte (drop_bit 6 r)) 0x3F)),
         char_of (or 0x80 (and (byte r) 0x3F))])"

text \<open>
  \<^verbatim>\<open>getu4\<close> reads \<^verbatim>\<open>\uXXXX\<close> at the start of its argument; \<^term>\<open>None\<close> stands for
  Go's result \<open>-1\<close>.
\<close>

definition hexval :: "char \<Rightarrow> nat option" where
  "hexval c =
     (let b = of_char c :: nat in
      if 0x30 \<le> b \<and> b \<le> 0x39 then Some (b - 0x30)
      else if 0x61 \<le> b \<and> b \<le> 0x66 then Some (b - 0x61 + 10)
      else if 0x41 \<le> b \<and> b \<le> 0x46 then Some (b - 0x41 + 10)
      else None)"

fun getu4_loop :: "nat \<Rightarrow> string \<Rightarrow> nat option" where
  "getu4_loop r [] = Some r"
| "getu4_loop r (c # cs) =
     (case hexval c of
        None \<Rightarrow> None
      | Some v \<Rightarrow> getu4_loop (r * 16 + v) cs)"

definition getu4 :: "string \<Rightarrow> nat option" where
  "getu4 s =
     (if length s < 6 \<or> s ! 0 \<noteq> CHR 0x5C \<or> s ! 1 \<noteq> CHR ''u'' then None
      else getu4_loop 0 (take 4 (drop 2 s)))"

text \<open>\<^verbatim>\<open>utf16.IsSurrogate\<close> and \<^verbatim>\<open>utf16.DecodeRune\<close>; the second half may be \<open>-1\<close>.\<close>

definition IsSurrogate :: "nat \<Rightarrow> bool" where
  "IsSurrogate r \<longleftrightarrow> 0xD800 \<le> r \<and> r < 0xE000"

definition utf16_DecodeRune :: "nat \<Rightarrow> nat option \<Rightarrow> nat" where
  "utf16_DecodeRune r1 r2 =
     (case r2 of
        None \<Rightarrow> 0xFFFD
      | Some r2' \<Rightarrow>
          if 0xD800 \<le> r1 \<and> r1 < 0xDC00 \<and> 0xDC00 \<le> r2' \<and> r2' < 0xE000 then
            or (push_bit 10 (r1 - 0xD800)) (r2' - 0xDC00) + 0x10000
          else 0xFFFD)"

text \<open>
  \<^verbatim>\<open>unquoteBytes\<close> of \<^verbatim>\<open>encoding/json\<close>, which \<^verbatim>\<open>json.Unmarshal\<close> applies to a string
  literal. Its first loop counts the leading bytes that stand for themselves.
\<close>

function unquote_scan :: "string \<Rightarrow> nat" where
  "unquote_scan [] = 0"
| "unquote_scan (c # cs) =
     (if c = CHR 0x5C \<or> c = CHR 0x22 \<or> (of_char c :: nat) < 0x20 then 0
      else if (of_char c :: nat) < RuneSelf then 1 + unquote_scan cs
      else
        (case DecodeRuneInString (c # cs) of
           (rr, size') \<Rightarrow>
             if rr = RuneError \<and> size' = 1 then 0
             else size' + unquote_scan (drop size' (c # cs))))"
  by pat_completeness auto
termination
  by (relation "measure length") (auto dest: DecodeRuneInString_Cons_pos)

text \<open>
  The second loop of \<^verbatim>\<open>unquoteBytes\<close>: the first argument is what was written so far,
  the second what is left to read. \<^term>\<open>None\<close> is the result \<^verbatim>\<open>ok = false\<close>.
\<close>

function unquote_loop :: "string \<Rightarrow> string \<Rightarrow> string option" where
  "unquote_loop b [] = Some b"
| "unquote_loop b (c # cs) =
     (if c = CHR 0x5C then
        (case cs of
           [] \<Rightarrow> None
         | e # es \<Rightarrow>
             if e = CHR 0x22 \<or> e = CHR 0x5C \<or> e = CHR ''/'' \<or> e = CHR 0x27 then
               unquote_loop (b @ [e]) es
             else if e = CHR ''b'' then unquote_loop (b @ [CHR 0x08]) es
             else if e = CHR ''f'' then unquote_loop (b @ [CHR 0x0C]) es
             else if e = CHR ''n'' then unquote_loop (b @ [CHR 0x0A]) es
             else if e = CHR ''r'' then unquote_loop (b @ [CHR 0x0D]) es
             else if e = CHR ''t'' then unquote_loop (b @ [CHR 0x09]) es
             else if e = CHR ''u'' then
               (case getu4 (c # cs) of
                  None \<Rightarrow> None
                | Some rr \<Rightarrow>
                    if IsSurrogate rr then
                      (let rr1 = getu4 (drop 6 (c # cs));
                           dec = utf16_DecodeRune rr rr1 in
                       if dec \<noteq> 0xFFFD then
                         unquote_loop (b @ EncodeRune dec) (drop 6 (drop 6 (c # cs)))
                       else unquote_loop (b @ EncodeRune 0xFFFD) (drop 6 (c # cs)))
                    else unquote_loop (b @ EncodeRune rr) (drop 6 (c # cs)))
             else None)
      else if c = CHR 0x22 \<or> (of_char c :: nat) < 0x20 then None
      else if (of_char c :: nat) < RuneSelf then unquote_loop (b @ [c]) cs
      else
        (case DecodeRuneInString (c # cs) of
           (rr, size') \<Rightarrow> unquote_loop (b @ EncodeRune rr) (drop size' (c # cs))))"
  by pat_completeness auto
termination
  by (relation "measure (\<lambda>(b, s). length s)") (auto dest: DecodeRuneInString_Cons_pos)

definition unquoteBytes :: "string \<Rightarrow> string option" where
  "unquoteBytes s =
     (if length s < 2 \<or> s ! 0 \<noteq> CHR 0x22 \<or> s ! (length s - 1) \<noteq> CHR 0x22 then None
      else
        (let s' = take (length s - 2) (drop 1 s); r = unquote_scan s' in
         if r = length s' then Some s'
         else unquote_loop (take r s') (drop r s')))"

text \<open>
  The scanner of \<^verbatim>\<open>encoding/json\<close> inside a string literal, after the opening quote
  (\<^verbatim>\<open>stateInString\<close>, \<^verbatim>\<open>stateInStringEsc\<close> and the four states of \<^verbatim>\<open>\uXXXX\<close>): it
  returns what follows the closing quote, or \<^term>\<open>None\<close> for a syntax error or a literal
  that does not end.
\<close>

definition ishex :: "char \<Rightarrow> bool" where
  "ishex c \<longleftrightarrow>
     (let b = of_char c :: nat in
      0x30 \<le> b \<and> b \<le> 0x39 \<or> 0x61 \<le> b \<and> b \<le> 0x66 \<or> 0x41 \<le> b \<and> b \<le> 0x46)"

fun stateInString :: "string \<Rightarrow> string option"
  and stateInStringEsc :: "string \<Rightarrow> string option"
  and stateInStringEscU :: "nat \<Rightarrow> string \<Rightarrow> string option" where
  "stateInString [] = None"
| "stateInString (c # cs) =
     (if c = CHR 0x22 then Some cs
      else if c = CHR 0x5C then stateInStringEsc cs
      else if (of_char c :: nat) < 0x20 then None
      else stateInString cs)"
| "stateInStringEsc [] = None"
| "stateInStringEsc (c # cs) =
     (if c = CHR ''b'' \<or> c = CHR ''f'' \<or> c = CHR ''n'' \<or> c = CHR ''r'' \<or> c = CHR ''t'' \<or>
         c = CHR 0x5C \<or> c = CHR ''/'' \<or> c = CHR 0x22 then stateInString cs
      else if c = CHR ''u'' then stateInStringEscU 4 cs
      else None)"
| "stateInStringEscU 0 cs = stateInString cs"
| "stateInStringEscU (Suc k) [] = None"
| "stateInStringEscU (Suc k) (c # cs) = (if ishex c then stateInStringEscU k cs else None)"

text \<open>
  Decoding a string value at the start of the input, as \<^verbatim>\<open>json.Unmarshal\<close> does for
  the value of a key: the scanner finds the end of the literal, \<^verbatim>\<open>unquoteBytes\<close> gives
  the string. The result is the string and the input after the literal.
\<close>

definition decode_string :: "string \<Rightarrow> (string \<times> string) option" where
  "decode_string s =
     (case s of
        [] \<Rightarrow> None
      | c # cs \<Rightarrow>
          if c \<noteq> CHR 0x22 then None
          else
            (case stateInString cs of
               None \<Rightarrow> None
             | Some rest \<Rightarrow>
                 (case unquoteBytes (take (length s - length rest) s) of
                    None \<Rightarrow> None
                  | Some v \<Rightarrow> Some (v, rest))))"

text \<open>
  Well-formed UTF-8, as \<^verbatim>\<open>utf8.ValidString\<close> reports it: no byte decodes to
  \<^verbatim>\<open>(RuneError, 1)\<close>.
\<close>

function ValidString :: "string \<Rightarrow> bool" where
  "ValidString [] = True"
| "ValidString (c # cs) =
     (case DecodeRuneInString (c # cs) of
        (r, n) \<Rightarrow> \<not> (r = RuneError \<and> n = 1) \<and> ValidString (drop n (c # cs)))"
  by pat_completeness auto
termination
  by (relation "measure length") (auto dest: DecodeRuneInString_Cons_pos)

text \<open>Bytes with a meaning in HTML.\<close>

definition html_significant :: "char \<Rightarrow> bool" where
  "html_significant c \<longleftrightarrow> c = CHR ''<'' \<or> c = CHR ''>'' \<or> c = CHR ''&''"

text \<open>What \<^verbatim>\<open>appendString\<close> writes for one byte that is not part of an escaped rune.\<close>

definition encode_byte :: "char \<Rightarrow> string" where
  "encode_byte c =
     (if (of_char c :: nat) < RuneSelf then
        (if htmlSafeSet (of_char c) then [c] else escape_byte c)
      else [c])"

text \<open>
  The byte sequences of the runes of a string, as \<^verbatim>\<open>for range\<close> visits them, and what
  \<^verbatim>\<open>appendString\<close> writes for one of them: the escape of its code point for U+2028 and
  U+2029 (the bytes \<open>E2 80 A8\<close> and \<open>E2 80 A9\<close>), its bytes one by one otherwise.
\<close>

function pieces :: "string \<Rightarrow> string list" where
  "pieces [] = []"
| "pieces (c # cs) =
     (case DecodeRuneInString (c # cs) of
        (r, n) \<Rightarrow> take n (c # cs) # pieces (drop n (c # cs)))"
  by pat_completeness auto
termination
  by (relation "measure length") (auto dest: DecodeRuneInString_Cons_pos)

definition encode_piece :: "string \<Rightarrow> string" where
  "encode_piece p =
     (if p = [CHR 0xE2, CHR 0x80, CHR 0xA8] then
        [CHR 0x5C, CHR ''u'', CHR ''2'', CHR ''0'', CHR ''2'', CHR ''8'']
      else if p = [CHR 0xE2, CHR 0x80, CHR 0xA9] then
        [CHR 0x5C, CHR ''u'', CHR ''2'', CHR ''0'', CHR ''2'', CHR ''9'']
      else concat (map encode_byte p))"

section \<open>Properties of the UTF-8 decoder\<close>

text \<open>The bit operations on bytes, as arithmetic.\<close>

lemma and_mask_nat: "and (x::nat) (mask n) = x mod 2 ^ n"
  by (simp add: take_bit_eq_mod flip: take_bit_eq_mask)

lemma and_7: "and (x::nat) 7 = x mod 8"
  using and_mask_nat [of x 3] by (simp add: mask_eq_exp_minus_1)
lemma and_15: "and (x::nat) 15 = x mod 16"
  using and_mask_nat [of x 4] by (simp add: mask_eq_exp_minus_1)
lemma and_31: "and (x::nat) 31 = x mod 32"
  using and_mask_nat [of x 5] by (simp add: mask_eq_exp_minus_1)
lemma and_63: "and (x::nat) 63 = x mod 64"
  using and_mask_nat [of x 6] by (simp add: mask_eq_exp_minus_1)

lemma or_push_bit_less:
  fixes a b :: nat
  assumes "b < 2 ^ n"
  shows "or (push_bit n a) b = a * 2 ^ n + b"
proof -
  have b: "take_bit n b = b"
    using assms by (simp add: take_bit_nat_eq_self_iff)
  have "and (push_bit n a) (take_bit n b) = 0"
    by (rule bit_eqI) (auto simp: bit_and_iff bit_push_bit_iff bit_take_bit_iff)
  then have "push_bit n a + take_bit n b = or (push_bit n a) (take_bit n b)"
    by (rule disjunctive_add_eq_or)
  then show ?thesis
    by (simp add: b push_bit_eq_mult)
qed

lemma or2:
  fixes a b :: nat
  shows "or (push_bit 6 a) (b mod 64) = a * 64 + b mod 64"
  using or_push_bit_less [of "b mod 64" 6 a] by simp

lemma or3:
  fixes a b c :: nat
  shows "or (or (push_bit 12 a) (push_bit 6 (b mod 64))) (c mod 64) =
         (a * 64 + b mod 64) * 64 + c mod 64"
proof -
  have "push_bit 12 a = push_bit 6 (push_bit 6 a)"
    by (simp add: push_bit_push_bit)
  then have "or (push_bit 12 a) (push_bit 6 (b mod 64)) = push_bit 6 (or (push_bit 6 a) (b mod 64))"
    by (simp only: push_bit_or)
  also have "\<dots> = push_bit 6 (a * 64 + b mod 64)"
    by (simp only: or2)
  finally have "or (or (push_bit 12 a) (push_bit 6 (b mod 64))) (c mod 64) =
      or (push_bit 6 (a * 64 + b mod 64)) (c mod 64)"
    by simp
  then show ?thesis
    by (simp only: or2)
qed

lemma or4:
  fixes a b c d :: nat
  shows "or (or (or (push_bit 18 a) (push_bit 12 (b mod 64))) (push_bit 6 (c mod 64))) (d mod 64) =
         ((a * 64 + b mod 64) * 64 + c mod 64) * 64 + d mod 64"
proof -
  have "push_bit 18 a = push_bit 6 (push_bit 12 a)"
    and "push_bit 12 (b mod 64) = push_bit 6 (push_bit 6 (b mod 64))"
    by (simp_all add: push_bit_push_bit)
  then have "or (or (push_bit 18 a) (push_bit 12 (b mod 64))) (push_bit 6 (c mod 64)) =
        push_bit 6 (or (or (push_bit 12 a) (push_bit 6 (b mod 64))) (c mod 64))"
    by (simp only: push_bit_or)
  also have "\<dots> = push_bit 6 ((a * 64 + b mod 64) * 64 + c mod 64)"
    by (simp only: or3)
  finally have "or (or (or (push_bit 18 a) (push_bit 12 (b mod 64))) (push_bit 6 (c mod 64))) (d mod 64) =
      or (push_bit 6 ((a * 64 + b mod 64) * 64 + c mod 64)) (d mod 64)"
    by simp
  then show ?thesis
    by (simp only: or2)
qed

subsection \<open>The decoder by the range of the first byte\<close>

text \<open>
  A continuation byte lies in \<open>80..BF\<close>; the second byte of a sequence is narrowed
  after the first bytes \<open>E0\<close>, \<open>ED\<close>, \<open>F0\<close> and \<open>F4\<close>, which excludes overlong forms,
  surrogates and runes beyond \<open>10FFFF\<close>.
\<close>

definition cont :: "char \<Rightarrow> bool" where
  "cont c \<longleftrightarrow> 0x80 \<le> (of_char c :: nat) \<and> (of_char c :: nat) \<le> 0xBF"

definition second_ok :: "nat \<Rightarrow> char \<Rightarrow> bool" where
  "second_ok s0 c1 \<longleftrightarrow>
     (if s0 = 0xE0 then 0xA0 \<le> (of_char c1 :: nat) \<and> (of_char c1 :: nat) \<le> 0xBF
      else if s0 = 0xED then 0x80 \<le> (of_char c1 :: nat) \<and> (of_char c1 :: nat) \<le> 0x9F
      else if s0 = 0xF0 then 0x90 \<le> (of_char c1 :: nat) \<and> (of_char c1 :: nat) \<le> 0xBF
      else if s0 = 0xF4 then 0x80 \<le> (of_char c1 :: nat) \<and> (of_char c1 :: nat) \<le> 0x8F
      else cont c1)"

lemma decode_ascii:
  "(of_char c0 :: nat) < 0x80 \<Longrightarrow> DecodeRuneInString (c0 # cs) = (of_char c0, 1)"
  by (simp add: DecodeRuneInString_def first_def byte_at_def)

lemma decode_bad_first:
  "0x80 \<le> (of_char c0 :: nat) \<Longrightarrow> (of_char c0 :: nat) < 0xC2 \<or> 0xF4 < (of_char c0 :: nat) \<Longrightarrow>
   DecodeRuneInString (c0 # cs) = (RuneError, 1)"
  by (auto simp add: DecodeRuneInString_def first_def byte_at_def)

lemma decode_two:
  assumes "0xC2 \<le> (of_char c0 :: nat)" "(of_char c0 :: nat) < 0xE0"
  shows "DecodeRuneInString (c0 # cs) =
     (case cs of
        c1 # _ \<Rightarrow>
          if cont c1 then ((of_char c0 mod 32) * 64 + of_char c1 mod 64, 2) else (RuneError, 1)
      | [] \<Rightarrow> (RuneError, 1))"
proof -
  have f: "first (of_char c0) = 0x02"
    using assms by (simp add: first_def)
  show ?thesis
    by (cases cs)
      (auto simp add: DecodeRuneInString_def f byte_at_def acceptRanges_def cont_def Let_def
        and_31 and_63 or2 simp del: push_bit_and)
qed


lemma decode_three_aux:
  assumes f: "first (of_char c0) = x" and x: "x = 0x13 \<or> x = 0x23 \<or> x = 0x03"
    and s: "\<And>c. second_ok (of_char c0) c =
       (fst (acceptRanges (drop_bit 4 x)) \<le> (of_char c :: nat) \<and>
        (of_char c :: nat) \<le> snd (acceptRanges (drop_bit 4 x)))"
  shows "DecodeRuneInString (c0 # cs) =
     (case cs of
        c1 # c2 # _ \<Rightarrow>
          if second_ok (of_char c0) c1 \<and> cont c2 then
            (((of_char c0 mod 16) * 64 + of_char c1 mod 64) * 64 + of_char c2 mod 64, 3)
          else (RuneError, 1)
      | _ \<Rightarrow> (RuneError, 1))"
proof -
  have sz: "and x 7 = 3" "\<not> 0xF0 \<le> x"
    using x by auto
  show ?thesis
  proof (cases cs)
    case Nil
    then show ?thesis
      by (simp add: DecodeRuneInString_def f sz byte_at_def Let_def split: prod.splits)
  next
    case c1: (Cons c1 r1)
    show ?thesis
    proof (cases r1)
      case Nil
      then show ?thesis using c1
        by (simp add: DecodeRuneInString_def f sz byte_at_def Let_def split: prod.splits)
    next
      case (Cons c2 r2)
      then show ?thesis using c1
        by (auto simp add: DecodeRuneInString_def f sz byte_at_def cont_def s
          Let_def and_15 and_63 or3 simp del: push_bit_and split: prod.splits)
    qed
  qed
qed

lemma decode_three:
  assumes "0xE0 \<le> (of_char c0 :: nat)" "(of_char c0 :: nat) < 0xF0"
  shows "DecodeRuneInString (c0 # cs) =
     (case cs of
        c1 # c2 # _ \<Rightarrow>
          if second_ok (of_char c0) c1 \<and> cont c2 then
            (((of_char c0 mod 16) * 64 + of_char c1 mod 64) * 64 + of_char c2 mod 64, 3)
          else (RuneError, 1)
      | _ \<Rightarrow> (RuneError, 1))"
proof -
  consider (e0) "(of_char c0 :: nat) = 0xE0" | (ed) "(of_char c0 :: nat) = 0xED"
    | (other) "(of_char c0 :: nat) \<noteq> 0xE0" "(of_char c0 :: nat) \<noteq> 0xED"
    by blast
  then show ?thesis
  proof cases
    case e0
    show ?thesis
      by (rule decode_three_aux [where x = "0x13"])
        (simp_all add: e0 first_def second_ok_def acceptRanges_def)
  next
    case ed
    show ?thesis
      by (rule decode_three_aux [where x = "0x23"])
        (simp_all add: ed first_def second_ok_def acceptRanges_def)
  next
    case other
    show ?thesis
      using other assms
      by (intro decode_three_aux [where x = "0x03"])
        (simp_all add: first_def second_ok_def acceptRanges_def cont_def)
  qed
qed

lemma decode_four_aux:
  assumes f: "first (of_char c0) = x" and x: "x = 0x34 \<or> x = 0x44 \<or> x = 0x04"
    and s: "\<And>c. second_ok (of_char c0) c =
       (fst (acceptRanges (drop_bit 4 x)) \<le> (of_char c :: nat) \<and>
        (of_char c :: nat) \<le> snd (acceptRanges (drop_bit 4 x)))"
  shows "DecodeRuneInString (c0 # cs) =
     (case cs of
        c1 # c2 # c3 # _ \<Rightarrow>
          if second_ok (of_char c0) c1 \<and> cont c2 \<and> cont c3 then
            ((((of_char c0 mod 8) * 64 + of_char c1 mod 64) * 64 + of_char c2 mod 64) * 64 +
               of_char c3 mod 64, 4)
          else (RuneError, 1)
      | _ \<Rightarrow> (RuneError, 1))"
proof -
  have sz: "and x 7 = 4" "x mod 8 = 4" "\<not> 0xF0 \<le> x"
    using x by auto
  show ?thesis
  proof (cases cs)
    case Nil
    then show ?thesis
      by (simp add: DecodeRuneInString_def f sz byte_at_def Let_def split: prod.splits)
  next
    case c1: (Cons c1 r1)
    show ?thesis
    proof (cases r1)
      case Nil
      then show ?thesis using c1
        by (simp add: DecodeRuneInString_def f sz byte_at_def Let_def split: prod.splits)
    next
      case c2: (Cons c2 r2)
      show ?thesis
      proof (cases r2)
        case Nil
        then show ?thesis using c1 c2
          by (simp add: DecodeRuneInString_def f sz byte_at_def Let_def split: prod.splits)
      next
        case (Cons c3 r3)
        then show ?thesis using c1 c2
          by (auto simp add: DecodeRuneInString_def f sz byte_at_def cont_def s
            Let_def and_7 and_63 or4 simp del: push_bit_and split: prod.splits)
      qed
    qed
  qed
qed

lemma decode_four:
  assumes "0xF0 \<le> (of_char c0 :: nat)" "(of_char c0 :: nat) \<le> 0xF4"
  shows "DecodeRuneInString (c0 # cs) =
     (case cs of
        c1 # c2 # c3 # _ \<Rightarrow>
          if second_ok (of_char c0) c1 \<and> cont c2 \<and> cont c3 then
            ((((of_char c0 mod 8) * 64 + of_char c1 mod 64) * 64 + of_char c2 mod 64) * 64 +
               of_char c3 mod 64, 4)
          else (RuneError, 1)
      | _ \<Rightarrow> (RuneError, 1))"
proof -
  consider (f0) "(of_char c0 :: nat) = 0xF0" | (f4) "(of_char c0 :: nat) = 0xF4"
    | (other) "(of_char c0 :: nat) \<noteq> 0xF0" "(of_char c0 :: nat) \<noteq> 0xF4"
    by blast
  then show ?thesis
  proof cases
    case f0
    show ?thesis
      by (rule decode_four_aux [where x = "0x34"])
        (simp_all add: f0 first_def second_ok_def acceptRanges_def)
  next
    case f4
    show ?thesis
      by (rule decode_four_aux [where x = "0x44"])
        (simp_all add: f4 first_def second_ok_def acceptRanges_def)
  next
    case other
    show ?thesis
      using other assms
      by (intro decode_four_aux [where x = "0x04"])
        (simp_all add: first_def second_ok_def acceptRanges_def cont_def)
  qed
qed

lemma decode_two':
  assumes "0xC2 \<le> (of_char c0 :: nat)" "(of_char c0 :: nat) < 0xE0"
  shows "DecodeRuneInString (c0 # cs) =
     (case cs of
        c1 # _ \<Rightarrow>
          if second_ok (of_char c0) c1 then ((of_char c0 mod 32) * 64 + of_char c1 mod 64, 2)
          else (RuneError, 1)
      | [] \<Rightarrow> (RuneError, 1))"
proof -
  have "second_ok (of_char c0) c = cont c" for c
    using assms by (simp add: second_ok_def)
  then show ?thesis
    by (cases cs) (simp_all add: decode_two [OF assms])
qed

text \<open>
  A result other than \<^verbatim>\<open>(RuneError, 1)\<close> for a first byte that is not ASCII comes from a
  well-formed sequence of two, three or four bytes.
\<close>

lemma decode_valid_cases:
  assumes d: "DecodeRuneInString (c0 # cs) = (r, n)"
    and hi: "0x80 \<le> (of_char c0 :: nat)"
    and ok: "\<not> (r = RuneError \<and> n = 1)"
  obtains
    (two) c1 rest where "cs = c1 # rest" "n = 2"
      "0xC2 \<le> (of_char c0 :: nat)" "(of_char c0 :: nat) < 0xE0" "second_ok (of_char c0) c1"
      "r = (of_char c0 mod 32) * 64 + of_char c1 mod 64"
  | (three) c1 c2 rest where "cs = c1 # c2 # rest" "n = 3"
      "0xE0 \<le> (of_char c0 :: nat)" "(of_char c0 :: nat) < 0xF0" "second_ok (of_char c0) c1" "cont c2"
      "r = ((of_char c0 mod 16) * 64 + of_char c1 mod 64) * 64 + of_char c2 mod 64"
  | (four) c1 c2 c3 rest where "cs = c1 # c2 # c3 # rest" "n = 4"
      "0xF0 \<le> (of_char c0 :: nat)" "(of_char c0 :: nat) \<le> 0xF4" "second_ok (of_char c0) c1"
      "cont c2" "cont c3"
      "r = (((of_char c0 mod 8) * 64 + of_char c1 mod 64) * 64 + of_char c2 mod 64) * 64 +
           of_char c3 mod 64"
proof -
  consider (bad) "(of_char c0 :: nat) < 0xC2 \<or> 0xF4 < (of_char c0 :: nat)"
    | (r2) "0xC2 \<le> (of_char c0 :: nat)" "(of_char c0 :: nat) < 0xE0"
    | (r3) "0xE0 \<le> (of_char c0 :: nat)" "(of_char c0 :: nat) < 0xF0"
    | (r4) "0xF0 \<le> (of_char c0 :: nat)" "(of_char c0 :: nat) \<le> 0xF4"
    by linarith
  then show thesis
  proof cases
    case bad
    then show ?thesis
      using d ok decode_bad_first [OF hi, of cs] by simp
  next
    case r2
    show ?thesis
    proof (cases cs)
      case Nil
      then show ?thesis using d ok decode_two' [OF r2, of cs] by simp
    next
      case (Cons c1 rest)
      then show ?thesis
        using d ok decode_two' [OF r2, of cs] r2 two [of c1 rest]
        by (auto split: if_splits)
    qed
  next
    case r3
    show ?thesis
    proof (cases cs)
      case Nil
      then show ?thesis using d ok decode_three [OF r3, of cs] by simp
    next
      case c1: (Cons c1 r1)
      show ?thesis
      proof (cases r1)
        case Nil
        then show ?thesis using c1 d ok decode_three [OF r3, of cs] by simp
      next
        case (Cons c2 rest)
        then show ?thesis
          using c1 d ok decode_three [OF r3, of cs] r3 three [of c1 c2 rest]
          by (auto split: if_splits)
      qed
    qed
  next
    case r4
    show ?thesis
    proof (cases cs)
      case Nil
      then show ?thesis using d ok decode_four [OF r4, of cs] by simp
    next
      case c1: (Cons c1 r1)
      show ?thesis
      proof (cases r1)
        case Nil
        then show ?thesis using c1 d ok decode_four [OF r4, of cs] by simp
      next
        case c2: (Cons c2 r2)
        show ?thesis
        proof (cases r2)
          case Nil
          then show ?thesis using c1 c2 d ok decode_four [OF r4, of cs] by simp
        next
          case (Cons c3 rest)
          then show ?thesis
            using c1 c2 d ok decode_four [OF r4, of cs] r4 four [of c1 c2 c3 rest]
            by (auto split: if_splits)
        qed
      qed
    qed
  qed
qed

subsection \<open>EncodeRune undoes the decoder\<close>

lemma or_C0: "a < 32 \<Longrightarrow> or 0xC0 a = 0xC0 + (a::nat)"
  using or_push_bit_less [of a 5 6] by (simp add: push_bit_eq_mult)
lemma or_80: "a < 64 \<Longrightarrow> or 0x80 a = 0x80 + (a::nat)"
  using or_push_bit_less [of a 6 2] by (simp add: push_bit_eq_mult)
lemma or_E0: "a < 16 \<Longrightarrow> or 0xE0 a = 0xE0 + (a::nat)"
  using or_push_bit_less [of a 4 14] by (simp add: push_bit_eq_mult)
lemma or_F0: "a < 8 \<Longrightarrow> or 0xF0 a = 0xF0 + (a::nat)"
  using or_push_bit_less [of a 3 30] by (simp add: push_bit_eq_mult)

lemma mod_range:
  fixes n q m :: nat
  assumes "q * m \<le> n" "n < q * m + m"
  shows "n mod m = n - q * m"
proof -
  define k where "k = n - q * m"
  have "n = q * m + k" "k < m"
    using assms by (simp_all add: k_def)
  then show ?thesis by simp
qed

lemma cont_mod: "cont c \<Longrightarrow> (of_char c :: nat) mod 64 = of_char c - 0x80"
  using mod_range [of 2 64 "of_char c"] by (simp add: cont_def)

lemma tail_byte: "or 0x80 (and (byte x) 0x3F) = 0x80 + x mod 64"
proof -
  have "and (byte x) 0x3F = x mod 64"
    by (simp add: byte_def and_63 mod_mod_cancel)
  then show ?thesis
    using or_80 [of "x mod 64"] by simp
qed

lemma cont_char: "cont c \<Longrightarrow> char_of (0x80 + (of_char c :: nat) mod 64) = c"
proof -
  assume c: "cont c"
  then have "0x80 + (of_char c :: nat) mod 64 = of_char c"
    by (simp add: cont_mod) (simp add: cont_def)
  then show ?thesis by simp
qed

lemma second_ok_cont: "second_ok s0 c \<Longrightarrow> cont c"
  by (auto simp: second_ok_def cont_def split: if_splits)

lemma encode_two:
  assumes "0xC2 \<le> (of_char c0 :: nat)" "(of_char c0 :: nat) < 0xE0" "cont c1"
  shows "EncodeRune ((of_char c0 mod 32) * 64 + of_char c1 mod 64) = [c0, c1]"
proof -
  define a b where "a = (of_char c0 :: nat) mod 32" and "b = (of_char c1 :: nat) mod 64"
  have "a = of_char c0 - 0xC0"
    unfolding a_def using assms mod_range [of 6 32 "of_char c0"] by simp
  then have a: "2 \<le> a" "a < 32" "0xC0 + a = of_char c0"
    using assms by simp_all
  have b: "b < 64" by (simp add: b_def)
  have r: "\<not> a * 64 + b \<le> 0x7F" "a * 64 + b \<le> 0x7FF"
    using a b by simp_all
  have d: "(a * 64 + b) div 64 = a" "(a * 64 + b) mod 64 = b"
    using b by simp_all
  have h: "or 0xC0 (byte (drop_bit 6 (a * 64 + b))) = of_char c0"
    using a or_C0 [of a] by (simp add: drop_bit_eq_div d byte_def)
  have t: "char_of (128 + (a * 64 + b) mod 64 :: nat) = c1"
    using cont_char [OF assms(3)] by (simp add: d b_def)
  have "EncodeRune (a * 64 + b) = [c0, c1]"
    by (simp only: EncodeRune_def r h tail_byte t if_True if_False char_of_char)
  then show ?thesis
    by (simp only: a_def b_def)
qed

lemma divmod_64:
  fixes q k :: nat
  assumes "k < 64"
  shows "(q * 64 + k) div 64 = q" "(q * 64 + k) mod 64 = k"
  using assms by simp_all

lemma div_4096: "(n::nat) div 4096 = n div 64 div 64"
  by (simp add: div_mult2_eq [symmetric])

lemma div_262144: "(n::nat) div 262144 = n div 64 div 64 div 64"
  by (simp add: div_mult2_eq [symmetric])

lemma encode_three:
  assumes s0: "0xE0 \<le> (of_char c0 :: nat)" "(of_char c0 :: nat) < 0xF0"
    and s1: "second_ok (of_char c0) c1" and s2: "cont c2"
  shows "EncodeRune (((of_char c0 mod 16) * 64 + of_char c1 mod 64) * 64 + of_char c2 mod 64) =
     [c0, c1, c2]"
proof -
  define a b c where "a = (of_char c0 :: nat) mod 16" and "b = (of_char c1 :: nat) mod 64"
    and "c = (of_char c2 :: nat) mod 64"
  define r where "r = (a * 64 + b) * 64 + c"
  have a_eq: "a = of_char c0 - 0xE0"
    unfolding a_def using s0 mod_range [of 14 16 "of_char c0"] by simp
  then have a: "a < 16" "0xE0 + a = of_char c0"
    using s0 by simp_all
  have c1: "cont c1" using s1 by (rule second_ok_cont)
  have b_eq: "b = of_char c1 - 0x80"
    unfolding b_def using c1 by (rule cont_mod)
  have b: "b < 64" "c < 64" by (simp_all add: b_def c_def)
  have lo: "a = 0 \<Longrightarrow> 32 \<le> b"
    using s1 a b_eq by (auto simp add: second_ok_def)
  have hi: "a = 13 \<Longrightarrow> b \<le> 31"
    using s1 a b_eq by (auto simp add: second_ok_def split: if_splits)
  have d: "r div 64 = a * 64 + b" "r mod 64 = c" "(a * 64 + b) div 64 = a" "(a * 64 + b) mod 64 = b"
    unfolding r_def using b by (simp_all only: divmod_64)
  have r1: "\<not> r \<le> 0x7FF"
  proof (cases "a = 0")
    case True
    then show ?thesis using lo by (simp add: r_def)
  next
    case False
    then have "1 \<le> a" by simp
    then have "4096 \<le> (a * 64 + b) * 64" by simp
    then show ?thesis by (simp add: r_def)
  qed
  have r2: "r \<le> 0xFFFF"
    using a b by (simp add: r_def)
  have r3: "\<not> (0xD800 \<le> r \<and> r \<le> 0xDFFF)"
  proof -
    consider "a < 13" | "a = 13" | "13 < a" by linarith
    then show ?thesis
    proof cases
      case 1
      then have "a * 64 + b < 13 * 64" using b by simp
      then have "r < 13 * 64 * 64" using b by (simp add: r_def)
      then show ?thesis by simp
    next
      case 2
      then show ?thesis using hi b by (simp add: r_def)
    next
      case 3
      then have "14 * 64 \<le> a * 64 + b" by simp
      then have "14 * 64 * 64 \<le> r" by (simp add: r_def)
      then show ?thesis by simp
    qed
  qed
  have r4: "\<not> \<not> r \<le> 0x7F \<Longrightarrow> False" "\<not> r \<le> 0x7F" "\<not> 0x10FFFF < r"
    using r1 r2 by simp_all
  have h: "or 0xE0 (byte (drop_bit 12 r)) = of_char c0"
    using a or_E0 [of a] by (simp add: drop_bit_eq_div div_4096 d byte_def)
  have m: "char_of (128 + drop_bit 6 r mod 64 :: nat) = c1"
    using cont_char [OF c1] by (simp add: drop_bit_eq_div d b_def)
  have t: "char_of (128 + r mod 64 :: nat) = c2"
    using cont_char [OF s2] by (simp add: d c_def)
  have "EncodeRune r = [c0, c1, c2]"
    using r3
    by (simp only: EncodeRune_def EncodeRune3_def r1 r2 r4 h tail_byte m t if_True if_False
        char_of_char simp_thms)
  then show ?thesis
    by (simp only: r_def a_def b_def c_def)
qed

lemma encode_four:
  assumes s0: "0xF0 \<le> (of_char c0 :: nat)" "(of_char c0 :: nat) \<le> 0xF4"
    and s1: "second_ok (of_char c0) c1" and s2: "cont c2" and s3: "cont c3"
  shows "EncodeRune ((((of_char c0 mod 8) * 64 + of_char c1 mod 64) * 64 + of_char c2 mod 64) * 64 +
           of_char c3 mod 64) = [c0, c1, c2, c3]"
proof -
  define a b c d where "a = (of_char c0 :: nat) mod 8" and "b = (of_char c1 :: nat) mod 64"
    and "c = (of_char c2 :: nat) mod 64" and "d = (of_char c3 :: nat) mod 64"
  define r where "r = ((a * 64 + b) * 64 + c) * 64 + d"
  have a_eq: "a = of_char c0 - 0xF0"
    unfolding a_def using s0 mod_range [of 30 8 "of_char c0"] by simp
  then have a: "a \<le> 4" "a < 8" "0xF0 + a = of_char c0"
    using s0 by simp_all
  have c1: "cont c1" using s1 by (rule second_ok_cont)
  have b_eq: "b = of_char c1 - 0x80"
    unfolding b_def using c1 by (rule cont_mod)
  have b: "b < 64" "c < 64" "d < 64" by (simp_all add: b_def c_def d_def)
  have lo: "a = 0 \<Longrightarrow> 16 \<le> b"
    using s1 a b_eq by (auto simp add: second_ok_def)
  have hi: "a = 4 \<Longrightarrow> b \<le> 15"
    using s1 a b_eq by (auto simp add: second_ok_def split: if_splits)
  have dm: "r div 64 = (a * 64 + b) * 64 + c" "r mod 64 = d"
    "((a * 64 + b) * 64 + c) div 64 = a * 64 + b" "((a * 64 + b) * 64 + c) mod 64 = c"
    "(a * 64 + b) div 64 = a" "(a * 64 + b) mod 64 = b"
    unfolding r_def using b by (simp_all only: divmod_64)
  have r1: "\<not> r \<le> 0xFFFF"
  proof (cases "a = 0")
    case True
    then have "16 * 64 \<le> (a * 64 + b) * 64 + c" using lo by simp
    then have "16 * 64 * 64 \<le> r" by (simp add: r_def)
    then show ?thesis by simp
  next
    case False
    then have "64 * 64 \<le> (a * 64 + b) * 64 + c" by simp
    then have "64 * 64 * 64 \<le> r" by (simp add: r_def)
    then show ?thesis by simp
  qed
  have r2: "\<not> 0x10FFFF < r"
  proof (cases "a = 4")
    case True
    then have "(a * 64 + b) * 64 + c \<le> (4 * 64 + 15) * 64 + 63" using hi b by simp
    then have "r \<le> ((4 * 64 + 15) * 64 + 63) * 64 + 63" using b by (simp add: r_def)
    then show ?thesis by simp
  next
    case False
    then have "a \<le> 3" using a by simp
    then have "(a * 64 + b) * 64 + c \<le> (3 * 64 + 63) * 64 + 63" using b by simp
    then have "r \<le> ((3 * 64 + 63) * 64 + 63) * 64 + 63" using b by (simp add: r_def)
    then show ?thesis by simp
  qed
  have r3: "\<not> r \<le> 0x7F" "\<not> r \<le> 0x7FF" "\<not> (0xD800 \<le> r \<and> r \<le> 0xDFFF)"
    using r1 by simp_all
  have q: "r div 262144 = a"
    by (simp only: div_262144 dm)
  have h: "or 0xF0 (byte (drop_bit 18 r)) = of_char c0"
    using a or_F0 [of a] by (simp add: drop_bit_eq_div q byte_def)
  have q1: "r div 4096 mod 64 = b" "r div 64 mod 64 = c"
    by (simp_all only: div_4096 dm)
  have m1: "char_of (128 + drop_bit 12 r mod 64 :: nat) = c1"
    using cont_char [OF c1] by (simp add: drop_bit_eq_div q1 b_def)
  have m2: "char_of (128 + drop_bit 6 r mod 64 :: nat) = c2"
    using cont_char [OF s2] by (simp add: drop_bit_eq_div q1 c_def)
  have t: "char_of (128 + r mod 64 :: nat) = c3"
    using cont_char [OF s3] by (simp add: dm d_def)
  have "EncodeRune r = [c0, c1, c2, c3]"
    using r3
    by (simp only: EncodeRune_def r1 r2 h tail_byte m1 m2 t if_True if_False
        char_of_char simp_thms)
  then show ?thesis
    by (simp only: r_def a_def b_def c_def d_def)
qed

text \<open>A rune decoded from a well-formed sequence is encoded as that sequence.\<close>

lemma encode_decode:
  assumes "DecodeRuneInString (c0 # cs) = (r, n)" "0x80 \<le> (of_char c0 :: nat)"
    "\<not> (r = RuneError \<and> n = 1)"
  shows "EncodeRune r = take n (c0 # cs)"
  using assms
proof (cases rule: decode_valid_cases)
  case (two c1 rest)
  then show ?thesis
    using encode_two [of c0 c1] second_ok_cont by simp
next
  case (three c1 c2 rest)
  then show ?thesis
    using encode_three [of c0 c1 c2] by simp
next
  case (four c1 c2 c3 rest)
  then show ?thesis
    using encode_four [of c0 c1 c2 c3] by simp
qed

lemma decode_prefix:
  assumes "DecodeRuneInString (c0 # cs) = (r, n)" "0x80 \<le> (of_char c0 :: nat)"
    "\<not> (r = RuneError \<and> n = 1)"
  shows "DecodeRuneInString (take n (c0 # cs) @ ys) = (r, n)"
  using assms
proof (cases rule: decode_valid_cases)
  case (two c1 rest)
  then show ?thesis
    using decode_two' [of c0 "c1 # ys"] by simp
next
  case (three c1 c2 rest)
  then show ?thesis
    using decode_three [of c0 "c1 # c2 # ys"] by simp
next
  case (four c1 c2 c3 rest)
  then show ?thesis
    using decode_four [of c0 "c1 # c2 # c3 # ys"] by simp
qed

lemma decode_high_bytes:
  assumes "DecodeRuneInString (c0 # cs) = (r, n)" "0x80 \<le> (of_char c0 :: nat)"
    "\<not> (r = RuneError \<and> n = 1)"
  shows "list_all (\<lambda>c. 0x80 \<le> (of_char c :: nat)) (take n (c0 # cs)) \<and> 2 \<le> n \<and> n \<le> length (c0 # cs)"
  using assms
proof (cases rule: decode_valid_cases)
  case (two c1 rest)
  then show ?thesis
    using assms(2) second_ok_cont [of "of_char c0" c1] by (simp add: cont_def)
next
  case (three c1 c2 rest)
  then show ?thesis
    using assms(2) second_ok_cont [of "of_char c0" c1] by (simp add: cont_def)
next
  case (four c1 c2 c3 rest)
  then show ?thesis
    using assms(2) second_ok_cont [of "of_char c0" c1] by (simp add: cont_def)
qed

lemma decode_take_UTFMax:
  "DecodeRuneInString (take UTFMax s) = DecodeRuneInString s"
proof (cases s)
  case Nil
  then show ?thesis by simp
next
  case (Cons c0 cs)
  consider (ascii) "(of_char c0 :: nat) < 0x80"
    | (bad) "0x80 \<le> (of_char c0 :: nat)" "(of_char c0 :: nat) < 0xC2 \<or> 0xF4 < (of_char c0 :: nat)"
    | (r2) "0xC2 \<le> (of_char c0 :: nat)" "(of_char c0 :: nat) < 0xE0"
    | (r3) "0xE0 \<le> (of_char c0 :: nat)" "(of_char c0 :: nat) < 0xF0"
    | (r4) "0xF0 \<le> (of_char c0 :: nat)" "(of_char c0 :: nat) \<le> 0xF4"
    by linarith
  then show ?thesis
  proof cases
    case ascii
    then show ?thesis using Cons by (simp add: UTFMax_def decode_ascii)
  next
    case bad
    then show ?thesis using Cons by (simp add: UTFMax_def decode_bad_first)
  next
    case r2
    then show ?thesis using Cons
      by (simp add: UTFMax_def decode_two' split: list.splits)
  next
    case r3
    then show ?thesis using Cons
      by (simp add: UTFMax_def decode_three split: list.splits)
  next
    case r4
    then show ?thesis using Cons
      by (simp add: UTFMax_def decode_four split: list.splits)
  qed
qed

section \<open>Properties of the string encoder\<close>

text \<open>The loop only appends to \<^verbatim>\<open>dst\<close>.\<close>

lemma appendString_loop_dst:
  "appendString_loop dst s = dst @ appendString_loop [] s"
proof (induction "length s" arbitrary: s dst rule: less_induct)
  case less
  have step: "appendString_loop (d @ p) rest = d @ appendString_loop p rest"
    if "length rest < length s" for d p rest
  proof -
    have "appendString_loop (d @ p) rest = (d @ p) @ appendString_loop [] rest"
      using that by (rule less)
    also have "\<dots> = d @ (p @ appendString_loop [] rest)"
      by simp
    also have "p @ appendString_loop [] rest = appendString_loop p rest"
      using that by (rule less [symmetric])
    finally show ?thesis .
  qed
  show ?case
  proof (cases s)
    case Nil
    then show ?thesis by simp
  next
    case (Cons c cs)
    have short: "length cs < length s"
      using Cons by simp
    show ?thesis
    proof (cases "(of_char c :: nat) < RuneSelf")
      case True
      then show ?thesis
        using Cons step [OF short] by simp
    next
      case False
      obtain r n where d: "DecodeRuneInString (take UTFMax (c # cs)) = (r, n)"
        by (cases "DecodeRuneInString (take UTFMax (c # cs))")
      then have "0 < n"
        using DecodeRuneInString_take_pos [of r n c cs] by simp
      then have dshort: "length (drop n (c # cs)) < length s"
        using Cons by simp
      show ?thesis
        using Cons False d step [OF dshort] step [OF short] by simp
    qed
  qed
qed

text \<open>One round of the loop of \<^verbatim>\<open>appendString\<close>, by the case of the first byte.\<close>

lemma enc_safe:
  assumes "(of_char c :: nat) < 0x80" "htmlSafeSet (of_char c)"
  shows "appendString_loop [] (c # cs) = [c] @ appendString_loop [] cs"
  using assms appendString_loop_dst [of "[c]" cs] by (simp add: RuneSelf_def)

lemma enc_escape:
  assumes "(of_char c :: nat) < 0x80" "\<not> htmlSafeSet (of_char c)"
  shows "appendString_loop [] (c # cs) = escape_byte c @ appendString_loop [] cs"
  using assms appendString_loop_dst [of "escape_byte c" cs] by (simp add: RuneSelf_def)

lemma enc_invalid:
  assumes "0x80 \<le> (of_char c :: nat)" "DecodeRuneInString (c # cs) = (RuneError, 1)"
  shows "appendString_loop [] (c # cs) =
     [CHR 0x5C, CHR ''u'', CHR ''f'', CHR ''f'', CHR ''f'', CHR ''d''] @ appendString_loop [] cs"
proof -
  have "DecodeRuneInString (take UTFMax (c # cs)) = (RuneError, 1)"
    using assms(2) by (simp only: decode_take_UTFMax)
  then show ?thesis
    using assms(1)
      appendString_loop_dst [of "[CHR 0x5C, CHR ''u'', CHR ''f'', CHR ''f'', CHR ''f'', CHR ''d'']" cs]
    by (simp add: RuneSelf_def)
qed

lemma enc_separator:
  assumes "0x80 \<le> (of_char c :: nat)" "DecodeRuneInString (c # cs) = (r, n)"
    "\<not> (r = RuneError \<and> n = 1)" "r = 0x2028 \<or> r = 0x2029"
  shows "appendString_loop [] (c # cs) =
     [CHR 0x5C, CHR ''u'', CHR ''2'', CHR ''0'', CHR ''2'', hex ! and r 0xF] @
     appendString_loop [] (drop n (c # cs))"
proof -
  have "DecodeRuneInString (take UTFMax (c # cs)) = (r, n)"
    using assms(2) by (simp only: decode_take_UTFMax)
  then show ?thesis
    using assms(1,3,4)
      appendString_loop_dst [of "[CHR 0x5C, CHR ''u'', CHR ''2'', CHR ''0'', CHR ''2'', hex ! and r 0xF]"
        "drop n (c # cs)"]
    by (auto simp add: RuneSelf_def)
qed

lemma enc_rune:
  assumes "0x80 \<le> (of_char c :: nat)" "DecodeRuneInString (c # cs) = (r, n)"
    "\<not> (r = RuneError \<and> n = 1)" "r \<noteq> 0x2028" "r \<noteq> 0x2029"
  shows "appendString_loop [] (c # cs) =
     take n (c # cs) @ appendString_loop [] (drop n (c # cs))"
proof -
  have "DecodeRuneInString (take UTFMax (c # cs)) = (r, n)"
    using assms(2) by (simp only: decode_take_UTFMax)
  then show ?thesis
    using assms(1,3,4,5)
      appendString_loop_dst [of "take n (c # cs)" "drop n (c # cs)"]
    by (auto simp add: RuneSelf_def)
qed

text \<open>
  The cases of a string that is not empty, with the piece written for its first rune
  and the rest of the string, which is shorter.
\<close>

lemma enc_cases:
  obtains (safe) "(of_char c :: nat) < 0x80" "htmlSafeSet (of_char c)"
      "appendString_loop [] (c # cs) = [c] @ appendString_loop [] cs"
    | (escape) "(of_char c :: nat) < 0x80" "\<not> htmlSafeSet (of_char c)"
      "appendString_loop [] (c # cs) = escape_byte c @ appendString_loop [] cs"
    | (invalid) "0x80 \<le> (of_char c :: nat)" "DecodeRuneInString (c # cs) = (RuneError, 1)"
      "appendString_loop [] (c # cs) =
        [CHR 0x5C, CHR ''u'', CHR ''f'', CHR ''f'', CHR ''f'', CHR ''d''] @ appendString_loop [] cs"
    | (separator) r n where "0x80 \<le> (of_char c :: nat)" "DecodeRuneInString (c # cs) = (r, n)"
      "\<not> (r = RuneError \<and> n = 1)" "r = 0x2028 \<or> r = 0x2029"
      "appendString_loop [] (c # cs) =
        [CHR 0x5C, CHR ''u'', CHR ''2'', CHR ''0'', CHR ''2'', hex ! and r 0xF] @
        appendString_loop [] (drop n (c # cs))"
      "length (drop n (c # cs)) < length (c # cs)"
    | (rune) r n where "0x80 \<le> (of_char c :: nat)" "DecodeRuneInString (c # cs) = (r, n)"
      "\<not> (r = RuneError \<and> n = 1)" "r \<noteq> 0x2028" "r \<noteq> 0x2029"
      "appendString_loop [] (c # cs) = take n (c # cs) @ appendString_loop [] (drop n (c # cs))"
      "length (drop n (c # cs)) < length (c # cs)"
proof (cases "(of_char c :: nat) < 0x80")
  case True
  then show ?thesis
    using safe escape enc_safe [of c cs] enc_escape [of c cs] by blast
next
  case False
  then have hi: "0x80 \<le> (of_char c :: nat)" by simp
  obtain r n where d: "DecodeRuneInString (c # cs) = (r, n)"
    by (cases "DecodeRuneInString (c # cs)")
  then have "0 < n"
    using DecodeRuneInString_Cons_pos [of r n c cs] by simp
  then have short: "length (drop n (c # cs)) < length (c # cs)"
    by simp
  show ?thesis
  proof (cases "r = RuneError \<and> n = 1")
    case True
    then show ?thesis
      using invalid hi d enc_invalid [of c cs] by simp
  next
    case ok: False
    show ?thesis
    proof (cases "r = 0x2028 \<or> r = 0x2029")
      case True
      then show ?thesis
        using separator [of r n] hi d ok short enc_separator [of c cs r n] by blast
    next
      case False
      then show ?thesis
        using rune [of r n] hi d ok short enc_rune [of c cs r n] by blast
    qed
  qed
qed

subsection \<open>What the encoder never writes\<close>

text \<open>
  The hexadecimal digits of an escape, the bytes of an escape and the bytes of a rune are
  none of \<open><\<close>, \<open>>\<close> and \<open>&\<close>.
\<close>

lemma less_16_cases:
  assumes "(k::nat) < 16"
  obtains "k = 0" | "k = 1" | "k = 2" | "k = 3" | "k = 4" | "k = 5" | "k = 6" | "k = 7"
    | "k = 8" | "k = 9" | "k = 10" | "k = 11" | "k = 12" | "k = 13" | "k = 14" | "k = 15"
proof -
  from assms have "k = 0 \<or> k = 1 \<or> k = 2 \<or> k = 3 \<or> k = 4 \<or> k = 5 \<or> k = 6 \<or> k = 7
    \<or> k = 8 \<or> k = 9 \<or> k = 10 \<or> k = 11 \<or> k = 12 \<or> k = 13 \<or> k = 14 \<or> k = 15"
    by arith
  then show thesis
    using that by blast
qed

lemma hex_digit:
  assumes "k < 16"
  shows "ishex (hex ! k)" "\<not> html_significant (hex ! k)" "hexval (hex ! k) = Some k"
    "hex ! k \<noteq> CHR 0x22" "hex ! k \<noteq> CHR 0x5C" "\<not> (of_char (hex ! k) :: nat) < 0x20"
  using assms
  by (cases k rule: less_16_cases; simp add: hex_def ishex_def html_significant_def hexval_def)+

lemma safe_not_significant:
  "htmlSafeSet (of_char c) \<Longrightarrow> \<not> html_significant c"
  by (auto simp: htmlSafeSet_def html_significant_def)

lemma high_not_significant:
  "0x80 \<le> (of_char c :: nat) \<Longrightarrow> \<not> html_significant c"
  by (auto simp: html_significant_def)

lemma nibbles:
  assumes "(b::nat) < 0x80"
  shows "drop_bit 4 b < 16" "and b 0xF < 16"
  using assms by (simp_all add: drop_bit_eq_div and_15)

lemma escape_not_significant:
  assumes "(of_char c :: nat) < 0x80" "\<not> htmlSafeSet (of_char c)"
  shows "list_all (\<lambda>c. \<not> html_significant c) (escape_byte c)"
proof -
  have "\<not> html_significant (hex ! drop_bit 4 (of_char c :: nat))"
    "\<not> html_significant (hex ! and (of_char c :: nat) 0xF)"
    using nibbles [OF assms(1)] by (simp_all add: hex_digit)
  then show ?thesis
    by (auto simp add: escape_byte_def Let_def html_significant_def)
qed

lemma appendString_loop_not_significant:
  "list_all (\<lambda>c. \<not> html_significant c) (appendString_loop [] s)"
proof (induction "length s" arbitrary: s rule: less_induct)
  case less
  show ?case
  proof (cases s)
    case Nil
    then show ?thesis by simp
  next
    case (Cons c cs)
    have short: "length cs < length s" using Cons by simp
    show ?thesis
    proof (cases c cs rule: enc_cases)
      case safe
      then show ?thesis
        using Cons less [OF short] safe_not_significant by simp
    next
      case escape
      then show ?thesis
        using Cons less [OF short] escape_not_significant by simp
    next
      case invalid
      then show ?thesis
        using Cons less [OF short] by (simp add: html_significant_def)
    next
      case (separator r n)
      have "\<not> html_significant (hex ! and r 0xF)"
        using separator(4) by (auto simp add: hex_def html_significant_def)
      then show ?thesis
        using Cons separator less [of "drop n (c # cs)"] by (simp add: html_significant_def)
    next
      case (rune r n)
      have "list_all (\<lambda>c. 0x80 \<le> (of_char c :: nat)) (take n (c # cs))"
        using decode_high_bytes [OF rune(2,1,3)] by simp
      then have "list_all (\<lambda>c. \<not> html_significant c) (take n (c # cs))"
        by (rule list.pred_mono_strong) (simp add: high_not_significant)
      then show ?thesis
        using Cons rune less [of "drop n (c # cs)"] by simp
    qed
  qed
qed

subsection \<open>The literal ends at its closing quote\<close>

text \<open>The scanner reads the literal written by \<^verbatim>\<open>appendString\<close> up to its closing quote.\<close>

lemma scan_u4:
  "stateInStringEscU 4 (a # b # c # d # x) =
     (if ishex a \<and> ishex b \<and> ishex c \<and> ishex d then stateInString x else None)"
proof -
  have "stateInStringEscU (Suc (Suc (Suc (Suc 0)))) (a # b # c # d # x) =
     (if ishex a \<and> ishex b \<and> ishex c \<and> ishex d then stateInString x else None)"
    by simp
  then show ?thesis
    by (simp add: eval_nat_numeral)
qed

lemma ishex_digits:
  "ishex (CHR ''0'')" "ishex (CHR ''2'')" "ishex (CHR ''f'')" "ishex (CHR ''d'')"
  by (simp_all add: ishex_def)

lemma scan_high_bytes:
  "list_all (\<lambda>c. 0x80 \<le> (of_char c :: nat)) p \<Longrightarrow> stateInString (p @ x) = stateInString x"
  by (induction p) auto

lemma scan_safe:
  "htmlSafeSet (of_char c) \<Longrightarrow> stateInString (c # x) = stateInString x"
  by (auto simp: htmlSafeSet_def)

lemma escape_byte_cases:
  assumes "(of_char c :: nat) < 0x80" "\<not> htmlSafeSet (of_char c)"
  obtains (quote) "escape_byte c = [CHR 0x5C, c]" "c = CHR 0x5C \<or> c = CHR 0x22"
    | (short) e where "escape_byte c = [CHR 0x5C, e]"
        "e = CHR ''b'' \<and> c = CHR 0x08 \<or> e = CHR ''f'' \<and> c = CHR 0x0C \<or>
         e = CHR ''n'' \<and> c = CHR 0x0A \<or> e = CHR ''r'' \<and> c = CHR 0x0D \<or>
         e = CHR ''t'' \<and> c = CHR 0x09"
    | (hex) "escape_byte c =
        [CHR 0x5C, CHR ''u'', CHR ''0'', CHR ''0'',
         hex ! drop_bit 4 (of_char c :: nat), hex ! and (of_char c :: nat) 0xF]"
proof -
  have ch: "c = d" if "(of_char c :: nat) = of_char d" for d
    using that by simp
  consider "(of_char c :: nat) = 0x5C \<or> (of_char c :: nat) = 0x22"
    | "(of_char c :: nat) = 0x08" | "(of_char c :: nat) = 0x0C" | "(of_char c :: nat) = 0x0A"
    | "(of_char c :: nat) = 0x0D" | "(of_char c :: nat) = 0x09"
    | "(of_char c :: nat) \<noteq> 0x5C" "(of_char c :: nat) \<noteq> 0x22" "(of_char c :: nat) \<noteq> 0x08"
      "(of_char c :: nat) \<noteq> 0x0C" "(of_char c :: nat) \<noteq> 0x0A" "(of_char c :: nat) \<noteq> 0x0D"
      "(of_char c :: nat) \<noteq> 0x09"
    by blast
  then show thesis
  proof cases
    case 1
    then have "c = CHR 0x5C \<or> c = CHR 0x22"
      using ch [of "CHR 0x5C"] ch [of "CHR 0x22"] by auto
    then show ?thesis
      using 1 quote by (simp add: escape_byte_def)
  next
    case 2
    then have "c = CHR 0x08" using ch [of "CHR 0x08"] by simp
    then show ?thesis using short [of "CHR ''b''"] by (simp add: escape_byte_def)
  next
    case 3
    then have "c = CHR 0x0C" using ch [of "CHR 0x0C"] by simp
    then show ?thesis using short [of "CHR ''f''"] by (simp add: escape_byte_def)
  next
    case 4
    then have "c = CHR 0x0A" using ch [of "CHR 0x0A"] by simp
    then show ?thesis using short [of "CHR ''n''"] by (simp add: escape_byte_def)
  next
    case 5
    then have "c = CHR 0x0D" using ch [of "CHR 0x0D"] by simp
    then show ?thesis using short [of "CHR ''r''"] by (simp add: escape_byte_def)
  next
    case 6
    then have "c = CHR 0x09" using ch [of "CHR 0x09"] by simp
    then show ?thesis using short [of "CHR ''t''"] by (simp add: escape_byte_def)
  next
    case 7
    then show ?thesis using hex by (simp add: escape_byte_def Let_def)
  qed
qed

lemma scan_escape:
  assumes "(of_char c :: nat) < 0x80" "\<not> htmlSafeSet (of_char c)"
  shows "stateInString (escape_byte c @ x) = stateInString x"
  using assms
proof (cases rule: escape_byte_cases)
  case quote
  then show ?thesis by auto
next
  case (short e)
  then show ?thesis by auto
next
  case hex
  have "ishex (hex ! drop_bit 4 (of_char c :: nat))" "ishex (hex ! and (of_char c :: nat) 0xF)"
    using nibbles [OF assms(1)] by (simp_all add: hex_digit)
  then show ?thesis
    by (simp add: hex scan_u4 ishex_digits)
qed

lemma scan_appendString_loop:
  "stateInString (appendString_loop [] s @ CHR 0x22 # rest) = Some rest"
proof (induction "length s" arbitrary: s rule: less_induct)
  case less
  show ?case
  proof (cases s)
    case Nil
    then show ?thesis by simp
  next
    case (Cons c cs)
    have short: "length cs < length s" using Cons by simp
    show ?thesis
    proof (cases c cs rule: enc_cases)
      case safe
      then show ?thesis
        using Cons less [OF short] scan_safe by simp
    next
      case escape
      then show ?thesis
        using Cons less [OF short] scan_escape by simp
    next
      case invalid
      then show ?thesis
        using Cons less [OF short] by (simp add: scan_u4 ishex_digits)
    next
      case (separator r n)
      have "ishex (hex ! and r 0xF)"
        using separator(4) by (auto simp add: hex_def ishex_def)
      then show ?thesis
        using Cons separator(1,2,3,5,6) less [of "drop n (c # cs)"]
        by (simp add: scan_u4 ishex_digits)
    next
      case (rune r n)
      have "list_all (\<lambda>c. 0x80 \<le> (of_char c :: nat)) (take n (c # cs))"
        using decode_high_bytes [OF rune(2,1,3)] by simp
      then show ?thesis
        using Cons rune less [of "drop n (c # cs)"] scan_high_bytes by simp
    qed
  qed
qed

subsection \<open>Reading a literal back\<close>

text \<open>
  One round of the second loop of \<^verbatim>\<open>unquoteBytes\<close> on each piece that \<^verbatim>\<open>appendString\<close>
  writes gives back the bytes the piece was written for.
\<close>

lemma getu4_Cons:
  "getu4 (CHR 0x5C # CHR ''u'' # a # b # c # d # x) = getu4_loop 0 [a, b, c, d]"
  by (simp add: getu4_def)

lemma hexval_zero: "hexval (CHR ''0'') = Some 0" "hexval (CHR ''2'') = Some 2"
  by (simp_all add: hexval_def)

lemma getu4_byte:
  assumes "(b::nat) < 0x80"
  shows "getu4 ([CHR 0x5C, CHR ''u'', CHR ''0'', CHR ''0'', hex ! drop_bit 4 b, hex ! and b 0xF] @ x) =
     Some b"
proof -
  have "hexval (hex ! drop_bit 4 b) = Some (b div 16)" "hexval (hex ! and b 0xF) = Some (b mod 16)"
    using nibbles [OF assms] hex_digit(3) by (simp_all add: drop_bit_eq_div and_15)
  then show ?thesis
    by (simp add: getu4_Cons hexval_zero)
qed

lemma getu4_separator:
  assumes "r = 0x2028 \<or> r = 0x2029"
  shows "getu4 ([CHR 0x5C, CHR ''u'', CHR ''2'', CHR ''0'', CHR ''2'', hex ! and r 0xF] @ x) = Some r"
  using assms by (auto simp add: getu4_Cons hexval_zero hex_def hexval_def)

lemma EncodeRune_ascii: "(of_char c :: nat) < 0x80 \<Longrightarrow> EncodeRune (of_char c) = [c]"
  by (simp add: EncodeRune_def byte_def)

lemma unquote_safe:
  assumes "htmlSafeSet (of_char c)"
  shows "unquote_loop b (c # x) = unquote_loop (b @ [c]) x"
  using assms by (auto simp add: htmlSafeSet_def RuneSelf_def)

lemma unquote_escape:
  assumes "(of_char c :: nat) < 0x80" "\<not> htmlSafeSet (of_char c)"
  shows "unquote_loop b (escape_byte c @ x) = unquote_loop (b @ [c]) x"
  using assms
proof (cases rule: escape_byte_cases)
  case quote
  then show ?thesis by auto
next
  case (short e)
  then show ?thesis by auto
next
  case hex
  have g: "getu4 (CHR 0x5C # CHR ''u'' # CHR ''0'' # CHR ''0'' # hex ! drop_bit 4 (of_char c :: nat) #
      hex ! and (of_char c :: nat) 0xF # x) = Some (of_char c)"
    using getu4_byte [OF assms(1), of x] by simp
  have s: "\<not> IsSurrogate (of_char c)"
    using assms(1) by (simp add: IsSurrogate_def)
  show ?thesis
    by (simp add: hex g s EncodeRune_ascii [OF assms(1)])
qed

lemma unquote_separator:
  assumes "0x80 \<le> (of_char c :: nat)" "DecodeRuneInString (c # cs) = (r, n)"
    "\<not> (r = RuneError \<and> n = 1)" "r = 0x2028 \<or> r = 0x2029"
  shows "unquote_loop b ([CHR 0x5C, CHR ''u'', CHR ''2'', CHR ''0'', CHR ''2'', hex ! and r 0xF] @ x) =
     unquote_loop (b @ take n (c # cs)) x"
proof -
  have g: "getu4 (CHR 0x5C # CHR ''u'' # CHR ''2'' # CHR ''0'' # CHR ''2'' # hex ! and r 0xF # x) = Some r"
    using getu4_separator [OF assms(4), of x] by simp
  have s: "\<not> IsSurrogate r"
    using assms(4) by (auto simp add: IsSurrogate_def)
  have e: "EncodeRune r = take n (c # cs)"
    using assms(2,1,3) by (rule encode_decode)
  show ?thesis
    by (simp add: g s e)
qed

lemma unquote_rune:
  assumes "0x80 \<le> (of_char c :: nat)" "DecodeRuneInString (c # cs) = (r, n)"
    "\<not> (r = RuneError \<and> n = 1)"
  shows "unquote_loop b (take n (c # cs) @ x) = unquote_loop (b @ take n (c # cs)) x"
proof -
  have n: "2 \<le> n" "n \<le> length (c # cs)"
    using decode_high_bytes [OF assms(2,1,3)] by simp_all
  then obtain p where p: "take n (c # cs) = c # p" "length p = n - 1"
    by (cases n) simp_all
  have d: "DecodeRuneInString (c # p @ x) = (r, n)"
    using decode_prefix [OF assms(2,1,3), of x] p by simp
  have e: "EncodeRune r = c # p"
    using encode_decode [OF assms(2,1,3)] p by simp
  have c: "c \<noteq> CHR 0x5C" "c \<noteq> CHR 0x22" "\<not> (of_char c :: nat) < 0x20" "\<not> (of_char c :: nat) < RuneSelf"
    using assms(1) by (auto simp add: RuneSelf_def)
  have "drop n (c # p @ x) = x"
    using p n by (cases n) simp_all
  then show ?thesis
    by (simp add: p c d e)
qed

lemma ValidString_Cons:
  assumes "ValidString (c # cs)" "DecodeRuneInString (c # cs) = (r, n)"
  shows "\<not> (r = RuneError \<and> n = 1)" "ValidString (drop n (c # cs))"
  using assms by auto

lemma unquote_loop_appendString_loop:
  "ValidString s \<Longrightarrow> unquote_loop b (appendString_loop [] s) = Some (b @ s)"
proof (induction "length s" arbitrary: s b rule: less_induct)
  case less
  show ?case
  proof (cases s)
    case Nil
    then show ?thesis by simp
  next
    case (Cons c cs)
    have short: "length cs < length s" using Cons by simp
    have v: "ValidString (c # cs)" using less.prems Cons by simp
    show ?thesis
    proof (cases c cs rule: enc_cases)
      case safe
      have "DecodeRuneInString (c # cs) = (of_char c, 1)"
        using safe(1) by (rule decode_ascii)
      then have "ValidString cs"
        using ValidString_Cons(2) [OF v] by simp
      then show ?thesis
        using Cons safe less.hyps [OF short, of "b @ [c]"] unquote_safe [of c b] by simp
    next
      case escape
      have "DecodeRuneInString (c # cs) = (of_char c, 1)"
        using escape(1) by (rule decode_ascii)
      then have "ValidString cs"
        using ValidString_Cons(2) [OF v] by simp
      then show ?thesis
        using Cons escape less.hyps [OF short, of "b @ [c]"] unquote_escape [of c b] by simp
    next
      case invalid
      then show ?thesis
        using ValidString_Cons(1) [OF v invalid(2)] by simp
    next
      case (separator r n)
      have "ValidString (drop n (c # cs))"
        using ValidString_Cons(2) [OF v separator(2)] .
      then have "unquote_loop (b @ take n (c # cs)) (appendString_loop [] (drop n (c # cs))) =
          Some ((b @ take n (c # cs)) @ drop n (c # cs))"
        using less.hyps [of "drop n (c # cs)" "b @ take n (c # cs)"] separator(6) Cons by simp
      then show ?thesis
        using Cons separator(5) unquote_separator [OF separator(1,2,3,4), of b]
        by (simp del: unquote_loop.simps take_Cons' drop_Cons')
    next
      case (rune r n)
      have "ValidString (drop n (c # cs))"
        using ValidString_Cons(2) [OF v rune(2)] .
      then have "unquote_loop (b @ take n (c # cs)) (appendString_loop [] (drop n (c # cs))) =
          Some ((b @ take n (c # cs)) @ drop n (c # cs))"
        using less.hyps [of "drop n (c # cs)" "b @ take n (c # cs)"] rune(7) Cons by simp
      then show ?thesis
        using Cons rune(6) unquote_rune [OF rune(1,2,3), of b]
        by (simp del: unquote_loop.simps take_Cons' drop_Cons')
    qed
  qed
qed

text \<open>The first loop of \<^verbatim>\<open>unquoteBytes\<close> skips bytes that the second would copy.\<close>

lemma unquote_scan_skip:
  "unquote_scan xs \<le> length xs \<and>
   unquote_loop b xs = unquote_loop (b @ take (unquote_scan xs) xs) (drop (unquote_scan xs) xs)"
proof (induction "length xs" arbitrary: xs b rule: less_induct)
  case less
  show ?case
  proof (cases xs)
    case Nil
    then show ?thesis by simp
  next
    case (Cons c cs)
    have short: "length cs < length xs" using Cons by simp
    show ?thesis
    proof (cases "c = CHR 0x5C \<or> c = CHR 0x22 \<or> (of_char c :: nat) < 0x20")
      case True
      then show ?thesis using Cons by auto
    next
      case usual: False
      show ?thesis
      proof (cases "(of_char c :: nat) < RuneSelf")
        case True
        then show ?thesis
          using Cons usual less [OF short, of "b @ [c]"] by simp
      next
        case False
        obtain r n where d: "DecodeRuneInString (c # cs) = (r, n)"
          by (cases "DecodeRuneInString (c # cs)")
        show ?thesis
        proof (cases "r = RuneError \<and> n = 1")
          case True
          then show ?thesis using Cons usual False d by simp
        next
          case ok: False
          have hi: "0x80 \<le> (of_char c :: nat)"
            using False by (simp add: RuneSelf_def)
          have n: "2 \<le> n" "n \<le> length (c # cs)"
            using decode_high_bytes [OF d hi ok] by simp_all
          then have dshort: "length (drop n (c # cs)) < length xs"
            using Cons by simp
          have e: "EncodeRune r = take n (c # cs)"
            using d hi ok by (rule encode_decode)
          have scan: "unquote_scan (c # cs) = n + unquote_scan (drop n (c # cs))"
            using usual False d ok by auto
          have loop: "unquote_loop b (c # cs) = unquote_loop (b @ take n (c # cs)) (drop n (c # cs))"
            using usual False d e by simp
          have ih: "unquote_scan (drop n (c # cs)) \<le> length (drop n (c # cs))"
            "unquote_loop (b @ take n (c # cs)) (drop n (c # cs)) =
             unquote_loop ((b @ take n (c # cs)) @
                 take (unquote_scan (drop n (c # cs))) (drop n (c # cs)))
               (drop (unquote_scan (drop n (c # cs))) (drop n (c # cs)))"
            using less [OF dshort, of "b @ take n (c # cs)"] by simp_all
          have t: "take (n + k) (c # cs) = take n (c # cs) @ take k (drop n (c # cs))" for k
            by (simp only: take_add)
          have dr: "drop (n + k) (c # cs) = drop k (drop n (c # cs))" for k
            by (simp only: drop_drop add.commute)
          show ?thesis
            unfolding Cons scan loop t dr using ih n by simp
        qed
      qed
    qed
  qed
qed

lemma unquoteBytes_quoted:
  "unquoteBytes (CHR 0x22 # body @ [CHR 0x22]) = unquote_loop [] body"
proof -
  have k: "unquote_scan body \<le> length body"
    and l: "unquote_loop [] body =
      unquote_loop (take (unquote_scan body) body) (drop (unquote_scan body) body)"
    using unquote_scan_skip [of body "[]"] by simp_all
  have last: "(CHR 0x22 # body @ [CHR 0x22]) ! (length body + 1) = CHR 0x22"
    by (simp add: nth_append)
  show ?thesis
  proof (cases "unquote_scan body = length body")
    case True
    then show ?thesis
      using l last by (simp add: unquoteBytes_def Let_def)
  next
    case False
    then show ?thesis
      using l last by (simp add: unquoteBytes_def Let_def)
  qed
qed

lemma appendString_quoted:
  "appendString [] s = CHR 0x22 # appendString_loop [] s @ [CHR 0x22]"
  using appendString_loop_dst [of "[CHR 0x22]" s] by (simp add: appendString_def)

lemma unquoteBytes_appendString:
  "ValidString s \<Longrightarrow> unquoteBytes (appendString [] s) = Some s"
  using unquote_loop_appendString_loop [of s "[]"]
  by (simp add: appendString_quoted unquoteBytes_quoted)

lemma decode_string_appendString:
  assumes "ValidString s"
  shows "decode_string (appendString [] s @ rest) = Some (s, rest)"
proof -
  have scan: "stateInString (appendString_loop [] s @ CHR 0x22 # rest) = Some rest"
    by (rule scan_appendString_loop)
  have "take (length (appendString [] s @ rest) - length rest) (appendString [] s @ rest) =
      appendString [] s"
    by simp
  then show ?thesis
    using scan unquoteBytes_appendString [OF assms]
    by (simp add: decode_string_def appendString_quoted)
qed

subsection \<open>The literal, rune by rune\<close>

lemma encode_byte_high:
  "list_all (\<lambda>c. 0x80 \<le> (of_char c :: nat)) p \<Longrightarrow> concat (map encode_byte p) = p"
  by (induction p) (simp_all add: encode_byte_def RuneSelf_def)

lemma pieces_Cons:
  "DecodeRuneInString (c # cs) = (r, n) \<Longrightarrow>
   pieces (c # cs) = take n (c # cs) # pieces (drop n (c # cs))"
  by simp

lemma concat_pieces: "concat (pieces s) = s"
proof (induction "length s" arbitrary: s rule: less_induct)
  case less
  show ?case
  proof (cases s)
    case Nil
    then show ?thesis by simp
  next
    case (Cons c cs)
    obtain r n where d: "DecodeRuneInString (c # cs) = (r, n)"
      by (cases "DecodeRuneInString (c # cs)")
    then have "0 < n"
      using DecodeRuneInString_Cons_pos [of r n c cs] by simp
    then have "length (drop n (c # cs)) < length s"
      using Cons by simp
    then have "concat (pieces (drop n (c # cs))) = drop n (c # cs)"
      by (rule less)
    then show ?thesis
      unfolding Cons pieces_Cons [OF d] by (simp del: pieces.simps)
  qed
qed

lemma decode_separator:
  "DecodeRuneInString [CHR 0xE2, CHR 0x80, CHR 0xA8] = (0x2028, 3)"
  "DecodeRuneInString [CHR 0xE2, CHR 0x80, CHR 0xA9] = (0x2029, 3)"
  by (simp_all add: eval_string)

lemma char_of_eqI: "(of_char c :: nat) = n \<Longrightarrow> char_of n = c"
  by auto

lemma EncodeRune_separator:
  "EncodeRune 0x2028 = [CHR 0xE2, CHR 0x80, CHR 0xA8]"
  "EncodeRune 0x2029 = [CHR 0xE2, CHR 0x80, CHR 0xA9]"
proof -
  have c: "char_of (226::nat) = CHR 0xE2" "char_of (128::nat) = CHR 0x80"
    "char_of (168::nat) = CHR 0xA8" "char_of (169::nat) = CHR 0xA9"
    by (rule char_of_eqI, simp)+
  show "EncodeRune 0x2028 = [CHR 0xE2, CHR 0x80, CHR 0xA8]"
    "EncodeRune 0x2029 = [CHR 0xE2, CHR 0x80, CHR 0xA9]"
    by (simp_all add: EncodeRune_def EncodeRune3_def byte_def drop_bit_eq_div and_63 or_E0 or_80 c)
qed

lemma encode_piece_ascii:
  "(of_char c :: nat) < 0x80 \<Longrightarrow> encode_piece [c] = encode_byte c"
  by (simp add: encode_piece_def)

lemma encode_piece_rune:
  assumes "0x80 \<le> (of_char c :: nat)" "DecodeRuneInString (c # cs) = (r, n)"
    "\<not> (r = RuneError \<and> n = 1)"
  shows "encode_piece (take n (c # cs)) =
     (if r = 0x2028 \<or> r = 0x2029 then
        [CHR 0x5C, CHR ''u'', CHR ''2'', CHR ''0'', CHR ''2'', hex ! and r 0xF]
      else take n (c # cs))"
proof -
  have e: "EncodeRune r = take n (c # cs)"
    using assms(2,1,3) by (rule encode_decode)
  have d: "DecodeRuneInString (take n (c # cs)) = (r, n)"
    using decode_prefix [OF assms(2,1,3), of "[]"] by simp
  have h: "concat (map encode_byte (take n (c # cs))) = take n (c # cs)"
    using decode_high_bytes [OF assms(2,1,3)] encode_byte_high by blast
  consider (ls) "r = 0x2028" | (ps) "r = 0x2029" | (other) "r \<noteq> 0x2028" "r \<noteq> 0x2029"
    by blast
  then show ?thesis
  proof cases
    case ls
    then have "take n (c # cs) = [CHR 0xE2, CHR 0x80, CHR 0xA8]"
      using e EncodeRune_separator by simp
    then show ?thesis
      using ls by (simp add: encode_piece_def hex_def)
  next
    case ps
    then have "take n (c # cs) = [CHR 0xE2, CHR 0x80, CHR 0xA9]"
      using e EncodeRune_separator by simp
    then show ?thesis
      using ps by (simp add: encode_piece_def hex_def)
  next
    case other
    have "take n (c # cs) \<noteq> [CHR 0xE2, CHR 0x80, CHR 0xA8]"
      "take n (c # cs) \<noteq> [CHR 0xE2, CHR 0x80, CHR 0xA9]"
      using d other decode_separator by auto
    then show ?thesis
      using other h by (simp add: encode_piece_def)
  qed
qed

lemma appendString_loop_pieces:
  "ValidString s \<Longrightarrow> appendString_loop [] s = concat (map encode_piece (pieces s))"
proof (induction "length s" arbitrary: s rule: less_induct)
  case less
  show ?case
  proof (cases s)
    case Nil
    then show ?thesis by simp
  next
    case (Cons c cs)
    have short: "length cs < length s" using Cons by simp
    have v: "ValidString (c # cs)" using less.prems Cons by simp
    show ?thesis
    proof (cases c cs rule: enc_cases)
      case safe
      have d: "DecodeRuneInString (c # cs) = (of_char c, 1)"
        using safe(1) by (rule decode_ascii)
      have "ValidString cs"
        using ValidString_Cons(2) [OF v d] by simp
      then have "appendString_loop [] cs = concat (map encode_piece (pieces cs))"
        using less.hyps [OF short] by simp
      then show ?thesis
        unfolding Cons using safe pieces_Cons [OF d] encode_piece_ascii [OF safe(1)]
        by (simp add: encode_byte_def RuneSelf_def del: pieces.simps)
    next
      case escape
      have d: "DecodeRuneInString (c # cs) = (of_char c, 1)"
        using escape(1) by (rule decode_ascii)
      have "ValidString cs"
        using ValidString_Cons(2) [OF v d] by simp
      then have "appendString_loop [] cs = concat (map encode_piece (pieces cs))"
        using less.hyps [OF short] by simp
      then show ?thesis
        unfolding Cons using escape pieces_Cons [OF d] encode_piece_ascii [OF escape(1)]
        by (simp add: encode_byte_def RuneSelf_def del: pieces.simps)
    next
      case invalid
      then show ?thesis
        using ValidString_Cons(1) [OF v invalid(2)] by simp
    next
      case (separator r n)
      have "ValidString (drop n (c # cs))"
        using ValidString_Cons(2) [OF v separator(2)] .
      then have "appendString_loop [] (drop n (c # cs)) =
          concat (map encode_piece (pieces (drop n (c # cs))))"
        using less.hyps [of "drop n (c # cs)"] separator(6) Cons by simp
      then show ?thesis
        unfolding Cons
        using separator(4,5) pieces_Cons [OF separator(2)]
          encode_piece_rune [OF separator(1,2,3)]
        by (simp del: pieces.simps take_Cons' drop_Cons')
    next
      case (rune r n)
      have "ValidString (drop n (c # cs))"
        using ValidString_Cons(2) [OF v rune(2)] .
      then have "appendString_loop [] (drop n (c # cs)) =
          concat (map encode_piece (pieces (drop n (c # cs))))"
        using less.hyps [of "drop n (c # cs)"] rune(7) Cons by simp
      then show ?thesis
        unfolding Cons
        using rune(4,5,6) pieces_Cons [OF rune(2)] encode_piece_rune [OF rune(1,2,3)]
        by (simp del: pieces.simps take_Cons' drop_Cons')
    qed
  qed
qed

section \<open>Claims about strings in the JSON text\<close>

lemma stringEncoder_quoted:
  "stringEncoder s = CHR 0x22 # appendString_loop [] s @ [CHR 0x22]"
  by (simp add: stringEncoder_def appendString_quoted)

lemma stringEncoder_not_significant:
  "list_all (\<lambda>c. \<not> html_significant c) (stringEncoder s)"
  using appendString_loop_not_significant [of s]
  by (simp add: stringEncoder_quoted html_significant_def)

lemma separated_not_significant:
  "list_all (list_all (\<lambda>c. \<not> html_significant c)) xs \<Longrightarrow>
   list_all (\<lambda>c. \<not> html_significant c) (separated xs)"
  by (induction xs rule: separated.induct) (simp_all add: html_significant_def)

lemma sliceEncoder_not_significant:
  assumes "\<And>v. list_all (\<lambda>c. \<not> html_significant c) (elemEnc v)"
  shows "list_all (\<lambda>c. \<not> html_significant c) (sliceEncoder elemEnc vs)"
proof (cases vs)
  case None
  then show ?thesis by (simp add: html_significant_def)
next
  case (Some xs)
  have "list_all (list_all (\<lambda>c. \<not> html_significant c)) (map elemEnc xs)"
    using assms by (simp add: list_all_iff)
  then show ?thesis
    using Some separated_not_significant [of "map elemEnc xs"]
    by (simp add: arrayEncoder_separated html_significant_def)
qed

lemma jsField_not_significant:
  "list_all (\<lambda>c. \<not> html_significant c) (structEncoder jsField_fields v)"
  using stringEncoder_not_significant
  by (simp add: jsField_json html_significant_def)

lemma jsEdge_not_significant:
  "list_all (\<lambda>c. \<not> html_significant c) (structEncoder jsEdge_fields v)"
  using stringEncoder_not_significant
  by (simp add: jsEdge_json html_significant_def)

lemma jsNode_not_significant:
  "list_all (\<lambda>c. \<not> html_significant c) (structEncoder jsNode_fields v)"
  using stringEncoder_not_significant
    sliceEncoder_not_significant [of "structEncoder jsField_fields", OF jsField_not_significant]
  by (simp add: jsNode_json html_significant_def)

lemma jsGraph_not_significant:
  "list_all (\<lambda>c. \<not> html_significant c) (structEncoder jsGraph_fields v)"
  using sliceEncoder_not_significant [of "structEncoder jsNode_fields", OF jsNode_not_significant]
    sliceEncoder_not_significant [of "structEncoder jsEdge_fields", OF jsEdge_not_significant]
  by (simp add: jsGraph_json html_significant_def)

text \<open>
  C7 does not hold as stated: a comment of well-formed UTF-8 that holds the character
  U+2028 (the bytes \<open>E2 80 A8\<close>) is not written with its bytes as they are, but with
  the escape of its code point.
\<close>

theorem C7_separator_escaped_counterexample:
  \<open>ValidString [CHR 0xE2, CHR 0x80, CHR 0xA8]
   \<and> Marshal_jsField \<lparr>Name = ''note'', Type = ''string'', Comment = [CHR 0xE2, CHR 0x80, CHR 0xA8]\<rparr> =
       Inr (''{"name":"note","type":"string","comment":"'' @ [CHR 0x5C] @ ''u2028"}'')\<close>
  by (simp add: Marshal_jsField_def jsField_json eval_string)

text \<open>
  C7, amended. A comment of well-formed UTF-8 is read back from its JSON text as it was,
  both by \<^verbatim>\<open>unquoteBytes\<close> on the literal and when the literal is followed by more
  text. Its literal is, between the quotes and rune by rune, the escape of the code point
  for U+2028 and U+2029 and otherwise the bytes of the rune, each ASCII byte as itself or
  as its escape and every other byte as it is. (A comment is written by
  \<^const>\<open>stringEncoder\<close>, as the last key of its field.)
\<close>

theorem C7_comment_round_trip:
  \<open>(ValidString s \<longrightarrow>
      unquoteBytes (stringEncoder s) = Some s \<and>
      decode_string (stringEncoder s @ rest) = Some (s, rest) \<and>
      stringEncoder s = [CHR 0x22] @ concat (map encode_piece (pieces s)) @ [CHR 0x22])
   \<and> concat (pieces s) = s
   \<and> (0x80 \<le> (of_char c :: nat) \<longrightarrow> encode_byte c = [c])
   \<and> structEncoder jsField_fields f =
       ''{"name":'' @ stringEncoder (Name f) @ '',"type":'' @ stringEncoder (Type f) @
       '',"comment":'' @ stringEncoder (Comment f) @ ''}''\<close>
proof -
  have readback: "ValidString s \<longrightarrow>
      unquoteBytes (stringEncoder s) = Some s \<and>
      decode_string (stringEncoder s @ rest) = Some (s, rest)"
    using unquoteBytes_appendString [of s] decode_string_appendString [of s rest]
    by (simp add: stringEncoder_def)
  have literal: "ValidString s \<longrightarrow>
       stringEncoder s = [CHR 0x22] @ concat (map encode_piece (pieces s)) @ [CHR 0x22]"
    using appendString_loop_pieces [of s] by (simp add: stringEncoder_quoted)
  have high: "0x80 \<le> (of_char c :: nat) \<longrightarrow> encode_byte c = [c]"
    by (simp add: encode_byte_def RuneSelf_def)
  show ?thesis
    using readback literal high concat_pieces [of s] jsField_json [of f] by blast
qed

text \<open>
  The witness is a comment of three characters, U+7528, U+2028 and U+540D: the first and
  the last keep their bytes, the second is written as its escape, and the comment is read
  back as it was.
\<close>

theorem C7_comment_round_trip_witness:
  \<open>ValidString [CHR 0xE7, CHR 0x94, CHR 0xA8, CHR 0xE2, CHR 0x80, CHR 0xA8, CHR 0xE5, CHR 0x90, CHR 0x8D]
   \<and> pieces [CHR 0xE7, CHR 0x94, CHR 0xA8, CHR 0xE2, CHR 0x80, CHR 0xA8, CHR 0xE5, CHR 0x90, CHR 0x8D] =
       [[CHR 0xE7, CHR 0x94, CHR 0xA8], [CHR 0xE2, CHR 0x80, CHR 0xA8], [CHR 0xE5, CHR 0x90, CHR 0x8D]]
   \<and> stringEncoder [CHR 0xE7, CHR 0x94, CHR 0xA8, CHR 0xE2, CHR 0x80, CHR 0xA8, CHR 0xE5, CHR 0x90, CHR 0x8D] =
       [CHR 0x22, CHR 0xE7, CHR 0x94, CHR 0xA8, CHR 0x5C, CHR ''u'', CHR ''2'', CHR ''0'', CHR ''2'',
        CHR ''8'', CHR 0xE5, CHR 0x90, CHR 0x8D, CHR 0x22]
   \<and> decode_string
        ([CHR 0x22, CHR 0xE7, CHR 0x94, CHR 0xA8, CHR 0x5C, CHR ''u'', CHR ''2'', CHR ''0'', CHR ''2'',
          CHR ''8'', CHR 0xE5, CHR 0x90, CHR 0x8D, CHR 0x22] @ ''}'') =
       Some ([CHR 0xE7, CHR 0x94, CHR 0xA8, CHR 0xE2, CHR 0x80, CHR 0xA8, CHR 0xE5, CHR 0x90, CHR 0x8D],
             ''}'')\<close>
proof -
  let ?s = "[CHR 0xE7, CHR 0x94, CHR 0xA8, CHR 0xE2, CHR 0x80, CHR 0xA8, CHR 0xE5, CHR 0x90, CHR 0x8D]"
  have v: "ValidString ?s"
    by (simp add: eval_string)
  have p: "pieces ?s =
      [[CHR 0xE7, CHR 0x94, CHR 0xA8], [CHR 0xE2, CHR 0x80, CHR 0xA8], [CHR 0xE5, CHR 0x90, CHR 0x8D]]"
    by (simp add: eval_string)
  have e: "concat (map encode_piece
      [[CHR 0xE7, CHR 0x94, CHR 0xA8], [CHR 0xE2, CHR 0x80, CHR 0xA8], [CHR 0xE5, CHR 0x90, CHR 0x8D]]) =
      [CHR 0xE7, CHR 0x94, CHR 0xA8, CHR 0x5C, CHR ''u'', CHR ''2'', CHR ''0'', CHR ''2'',
       CHR ''8'', CHR 0xE5, CHR 0x90, CHR 0x8D]"
    by (simp add: encode_piece_def encode_byte_def RuneSelf_def)
  have a: "decode_string (stringEncoder ?s @ ''}'') = Some (?s, ''}'')"
    using C7_comment_round_trip [of ?s "''}''"] v by blast
  have b: "stringEncoder ?s = [CHR 0x22] @ concat (map encode_piece (pieces ?s)) @ [CHR 0x22]"
    using C7_comment_round_trip [of ?s "''}''"] v by blast
  have q: "stringEncoder ?s =
      [CHR 0x22, CHR 0xE7, CHR 0x94, CHR 0xA8, CHR 0x5C, CHR ''u'', CHR ''2'', CHR ''0'', CHR ''2'',
       CHR ''8'', CHR 0xE5, CHR 0x90, CHR 0x8D, CHR 0x22]"
    unfolding b p e by simp
  show ?thesis
    using a v p unfolding q by simp
qed

text \<open>
  An entity whose one field has a comment made of the characters with a meaning in
  HTML, and a template with the JSON text as a value inside a \<^verbatim>\<open>script\<close> element.
\<close>

definition markup_graph :: gen_Graph where
  \<open>markup_graph =
     \<lparr>Config_Target = ''ent'',
      Graph_Nodes =
        [\<lparr>Type_Name = ''T'',
          Type_Fields =
            [\<lparr>Field_Name = ''n'', Field_Type_String = ''string'',
              Field_Comment = ''</script><b>"&''\<rparr>],
          Type_Edges = []\<rparr>]\<rparr>\<close>

definition script_template :: Template where
  "script_template =
     \<lparr>escapeErr = None,
      Tree = [TextNode ''<script>var g='', ActionNode ''GraphJSON'' (stateJS stringEncoder),
              TextNode '';</script>'']\<rparr>"

text \<open>
  C4. For every graph the JSON text has none of the bytes \<open><\<close>, \<open>>\<close> and \<open>&\<close>, whatever
  the comments hold: they are written as \<^verbatim>\<open>\u003c\<close>, \<^verbatim>\<open>\u003e\<close> and
  \<^verbatim>\<open>\u0026\<close>. So
  nothing in it can end the enclosing \<^verbatim>\<open>script\<close> element or start a tag, a comment or
  a character reference. Every string of the JSON text, read from its opening quote, ends
  at its own closing quote: a double quote of a comment is written as \<^verbatim>\<open>\"\<close> and cannot
  close the literal. And when the slot is in script context, that is when the action
  \<^verbatim>\<open>{{.GraphJSON}}\<close> stands as a value inside a \<^verbatim>\<open>script\<close> element (the state
  \<^const>\<open>stateJS\<close>), the rendered page has in its place the JSON text, byte for byte,
  between what the nodes before it and the nodes after it write.
\<close>

theorem C4_script_context:
  \<open>(\<exists>payload. Marshal_jsGraph (toJsGraph g) = Inr payload \<and>
       list_all (\<lambda>c. \<not> html_significant c) payload)
   \<and> (\<exists>body. stringEncoder s = [CHR 0x22] @ body @ [CHR 0x22] \<and>
       stateInString (body @ [CHR 0x22] @ rest) = Some rest)
   \<and> (fsys ''assets/fira_code.css'' = Some css \<and> fsys ''assets/vis-network.min.js'' = Some vis \<and>
       fsys ''assets/randomcolor.min.js'' = Some rc \<and>
       data = \<lparr>FiraCodeCSS = css, VisNetworkJS = vis, RandomColorJS = rc,
                GraphJSON = structEncoder jsGraph_fields (toJsGraph g)\<rparr> \<and>
       list_all (executes data) before \<and> list_all (executes data) after \<longrightarrow>
       generateHTML fsys
           \<lparr>escapeErr = None,
            Tree = before @ [ActionNode ''GraphJSON'' (stateJS other)] @ after\<rparr> g =
         Inr (concat (map (node_text data) before) @
              structEncoder jsGraph_fields (toJsGraph g) @
              concat (map (node_text data) after)))\<close>
proof -
  have payload: "\<exists>payload. Marshal_jsGraph (toJsGraph g) = Inr payload \<and>
       list_all (\<lambda>c. \<not> html_significant c) payload"
    using jsGraph_not_significant [of "toJsGraph g"] by (simp add: Marshal_jsGraph_def)
  have literal: "\<exists>body. stringEncoder s = [CHR 0x22] @ body @ [CHR 0x22] \<and>
       stateInString (body @ [CHR 0x22] @ rest) = Some rest"
    using scan_appendString_loop [of s rest] by (simp add: stringEncoder_quoted)
  have page: "generateHTML fsys
           \<lparr>escapeErr = None,
            Tree = before @ [ActionNode ''GraphJSON'' (stateJS other)] @ after\<rparr> g =
         Inr (concat (map (node_text data) before) @
              structEncoder jsGraph_fields (toJsGraph g) @
              concat (map (node_text data) after))"
    if a: "fsys ''assets/fira_code.css'' = Some css" "fsys ''assets/vis-network.min.js'' = Some vis"
      "fsys ''assets/randomcolor.min.js'' = Some rc"
      "data = \<lparr>FiraCodeCSS = css, VisNetworkJS = vis, RandomColorJS = rc,
                GraphJSON = structEncoder jsGraph_fields (toJsGraph g)\<rparr>"
      and k: "list_all (executes data) before" "list_all (executes data) after"
  proof -
    let ?t = "\<lparr>escapeErr = None,
            Tree = before @ [ActionNode ''GraphJSON'' (stateJS other)] @ after\<rparr>"
    have "list_all (executes data) (Tree ?t)"
      using k by (simp add: executes_def)
    then have "generateHTML fsys ?t g = Inr (concat (map (node_text data) (Tree ?t)))"
      using generateHTML_success [OF a, of ?t] by simp
    also have "concat (map (node_text data) (Tree ?t)) =
        concat (map (node_text data) before) @ structEncoder jsGraph_fields (toJsGraph g) @
        concat (map (node_text data) after)"
      by (simp add: node_text_def evalField_def a(4))
    finally show ?thesis .
  qed
  show ?thesis
    using payload literal page by blast
qed

theorem C4_script_context_witness:
  \<open>generateHTML example_assets script_template markup_graph =
     Inr (''<script>var g={"nodes":[{"id":"T","fields":[{"name":"n","type":"string","comment":"'' @
          [CHR 0x5C] @ ''u003c/script'' @ [CHR 0x5C] @ ''u003e'' @ [CHR 0x5C] @ ''u003cb'' @
          [CHR 0x5C] @ ''u003e'' @ [CHR 0x5C] @ ''"'' @ [CHR 0x5C] @
          ''u0026"}]}],"edges":null};</script>'')
   \<and> list_all (\<lambda>c. \<not> html_significant c) (structEncoder jsGraph_fields (toJsGraph markup_graph))\<close>
proof -
  have json: \<open>structEncoder jsGraph_fields (toJsGraph markup_graph) =
      ''{"nodes":[{"id":"T","fields":[{"name":"n","type":"string","comment":"'' @
          [CHR 0x5C] @ ''u003c/script'' @ [CHR 0x5C] @ ''u003e'' @ [CHR 0x5C] @ ''u003cb'' @
          [CHR 0x5C] @ ''u003e'' @ [CHR 0x5C] @ ''"'' @ [CHR 0x5C] @
          ''u0026"}]}],"edges":null}''\<close>
    by (simp add: markup_graph_def toJsGraph_def jsGraph_json jsNode_json jsField_json
        arrayEncoder_def eval_string)
  have page: "generateHTML example_assets script_template markup_graph =
      Inr (''<script>var g='' @ structEncoder jsGraph_fields (toJsGraph markup_graph) @ '';</script>'')"
    using C4_script_context [of markup_graph _ _ example_assets "''a{}''" "''var v;''" "''var r;''"
        "\<lparr>FiraCodeCSS = ''a{}'', VisNetworkJS = ''var v;'', RandomColorJS = ''var r;'',
          GraphJSON = structEncoder jsGraph_fields (toJsGraph markup_graph)\<rparr>"
        "[TextNode ''<script>var g='']" "[TextNode '';</script>'']" stringEncoder]
    by (simp add: example_assets_def script_template_def executes_def node_text_def)
  have safe: "list_all (\<lambda>c. \<not> html_significant c) (structEncoder jsGraph_fields (toJsGraph markup_graph))"
    using C4_script_context [of markup_graph] by (simp add: Marshal_jsGraph_def)
  show ?thesis
    using safe unfolding page json by simp
qed

end
